theory Spec2Isabelle
  imports Main "HOL-Library.Word" "HOL-Library.Multiset" "HOL-Library.Char_ord" "HOL-Library.List_Lexorder"
begin

unbundle bit_operations_syntax

section \<open>The runtime primitives the sources call\<close>

text \<open>
  The TypeScript sources run on Node.js. The functions verified below call a small part
  of its Buffer API and of JavaScript's 32-bit integer operators; this section fixes what
  those primitives do, as the Node.js and ECMAScript documentation specifies them.

  \<^item> A \<open>Buffer\<close> is a list of bytes. A JavaScript \<open>number\<close> that holds an integer, and
    a \<open>bigint\<close>, is an \<open>int\<close>; non-integral numbers are outside the model.
  \<^item> A JavaScript string that passes through the codec is the list of its UTF-16 code
    units, \<open>jsstring\<close>; \<open>Buffer.byteLength\<close>, \<open>buffer.write\<close> and \<open>buffer.toString\<close>
    encode it to UTF-8 and decode it as Node.js does, with U+FFFD for a lone surrogate
    and for every ill-formed byte sequence. The names the cluster metadata compares
    (topics, hosts) stay plain \<open>string\<close>s.
  \<^item> A JavaScript \<open>number\<close> that holds a float is a binary64 value, given by its 64 bits;
    \<open>writeFloatBE\<close> rounds it to binary32 (to nearest, ties to even) and
    \<open>readFloatBE\<close> widens the binary32 value it reads.
  \<^item> Every \<open>throw\<close> is a value \<open>Inl e\<close> of the sum type \<open>error + 'a\<close>.
\<close>

type_synonym byte = "8 word"
type_synonym Buffer = "byte list"

text \<open>The text of an error message, with the values its template interpolates.\<close>

datatype message =
    TopicNotFoundInMetadata string
  | PartitionNotFoundForTopic int string
  | NoLeaderForTopicPartition string int
  | NotConnectedToBroker
  | ConnectionClosed
  | BrokerClosedConnection
  | RequestSizeExceedsMax int int
  | RequestTimedOutAfter int int int
  | NoConnectionToNode int
  | NoBrokersAvailableToRefresh
  | ConnectionTimedOut
  | SocketTimedOut
  | SocketFailure nat

text \<open>
  The error classes: \<open>RangeError\<close> is what Node.js throws for a read or write outside a
  buffer or for a value outside the range of its field; \<open>PlainError\<close> is an \<open>Error\<close> that
  is not a \<open>KafkaError\<close> (a socket error); the others are the classes of KafkaError.ts.
\<close>

datatype error =
    RangeError
  | PlainError message
  | KafkaError message
  | DisconnectedError message
  | TimeoutError message
  | LeaderNotAvailableError message

subsection \<open>Integers in a buffer\<close>

fun be_bytes :: "nat \<Rightarrow> int \<Rightarrow> Buffer" where
  "be_bytes 0 v = []"
| "be_bytes (Suc n) v = be_bytes n (v div 256) @ [word_of_int v]"

definition be_value :: "Buffer \<Rightarrow> int" where
  "be_value bs = foldl (\<lambda>acc b. acc * 256 + uint b) 0 bs"

definition to_signed :: "nat \<Rightarrow> int \<Rightarrow> int" where
  "to_signed w u = (if 2 ^ (8 * w - 1) \<le> u then u - 2 ^ (8 * w) else u)"

definition alloc :: "nat \<Rightarrow> Buffer" where
  "alloc n = replicate n 0"

text \<open>
  \<open>source.copy(target, off)\<close> and \<open>target.write(string, off)\<close>: the bytes of the source
  overwrite the target from \<open>off\<close>, as many as fit.
\<close>

definition blit :: "Buffer \<Rightarrow> Buffer \<Rightarrow> nat \<Rightarrow> Buffer" where
  "blit src target off =
     take off target @ take (length target - off) src @ drop (off + length src) target"

definition in_bounds :: "Buffer \<Rightarrow> int \<Rightarrow> nat \<Rightarrow> bool" where
  "in_bounds buf off w \<longleftrightarrow> 0 \<le> off \<and> off + int w \<le> int (length buf)"

text \<open>\<open>buf.readUIntBE\<close>, \<open>buf.readIntBE\<close> and their fixed-width forms, of \<open>w\<close> bytes.\<close>

definition readUIntBE :: "nat \<Rightarrow> Buffer \<Rightarrow> int \<Rightarrow> error + int" where
  "readUIntBE w buf off =
     (if in_bounds buf off w then Inr (be_value (take w (drop (nat off) buf)))
      else Inl RangeError)"

definition readIntBE :: "nat \<Rightarrow> Buffer \<Rightarrow> int \<Rightarrow> error + int" where
  "readIntBE w buf off =
     (if in_bounds buf off w then Inr (to_signed w (be_value (take w (drop (nat off) buf))))
      else Inl RangeError)"


definition writeIntBE :: "nat \<Rightarrow> Buffer \<Rightarrow> int \<Rightarrow> nat \<Rightarrow> error + Buffer" where
  "writeIntBE w buf v off =
     (if - (2 ^ (8 * w - 1)) \<le> v \<and> v < 2 ^ (8 * w - 1) \<and> off + w \<le> length buf
      then Inr (blit (be_bytes w v) buf off) else Inl RangeError)"

subsection \<open>Floats\<close>

type_synonym float32 = "32 word"
type_synonym float64 = "64 word"

text \<open>
  The conversions between binary64 and binary32, on the bit patterns: sign, biased
  exponent and fraction. \<open>double_to_float\<close> is the conversion of a store into a
  \<open>Float32Array\<close>: it rounds to the nearest binary32 value, ties to even, subnormal
  results and the overflow to infinity included; a NaN keeps its sign and the upper bits
  of its payload and becomes quiet. \<open>float_to_double\<close> is exact. The number of bits
  of a positive integer is \<open>bit_length\<close>; \<open>round_to_float32 m e\<close> gives the bits, without
  the sign, of the binary32 value nearest to \<open>m * 2 ^ e\<close>.
\<close>

function bit_length :: "int \<Rightarrow> nat" where
  "bit_length n = (if n \<le> 0 then 0 else Suc (bit_length (n div 2)))"
  by auto

termination
  by (relation "measure nat") auto

declare bit_length.simps [simp del]




definition float_to_double :: "float32 \<Rightarrow> float64" where
  "float_to_double f =
     (let u = uint f; s = u div 2 ^ 31; e = u div 2 ^ 23 mod 256; m = u mod 2 ^ 23;
          bits = (if e = 255
                  then (if m = 0 then 0x7FF0000000000000
                        else 0x7FF8000000000000 + (m mod 2 ^ 22) * 2 ^ 29)
                  else if e = 0
                  then (if m = 0 then 0
                        else (int (bit_length m) + 873) * 2 ^ 52
                               + (m * 2 ^ (53 - bit_length m) - 2 ^ 52))
                  else (e + 896) * 2 ^ 52 + m * 2 ^ 29)
      in word_of_int (s * 2 ^ 63 + bits))"


definition readFloatBE :: "Buffer \<Rightarrow> int \<Rightarrow> error + float64" where
  "readFloatBE buf off =
     (case readUIntBE 4 buf off of
        Inl e \<Rightarrow> Inl e
      | Inr u \<Rightarrow> Inr (float_to_double (word_of_int u)))"


definition readDoubleBE :: "Buffer \<Rightarrow> int \<Rightarrow> error + float64" where
  "readDoubleBE buf off =
     (case readUIntBE 8 buf off of Inl e \<Rightarrow> Inl e | Inr u \<Rightarrow> Inr (word_of_int u))"

subsection \<open>Strings and slices\<close>

type_synonym jsstring = "16 word list"

text \<open>
  The code points of a string, as the UTF-8 encoder reads them: a high surrogate followed
  by a low surrogate is one code point, a surrogate on its own is U+FFFD.
\<close>

definition is_high :: "16 word \<Rightarrow> bool" where
  "is_high u \<longleftrightarrow> 0xD800 \<le> uint u \<and> uint u \<le> 0xDBFF"

definition is_low :: "16 word \<Rightarrow> bool" where
  "is_low u \<longleftrightarrow> 0xDC00 \<le> uint u \<and> uint u \<le> 0xDFFF"

definition unit_code_point :: "16 word \<Rightarrow> int" where
  "unit_code_point u = (if is_high u \<or> is_low u then 0xFFFD else uint u)"

definition pair_code_point :: "16 word \<Rightarrow> 16 word \<Rightarrow> int" where
  "pair_code_point u l = 0x10000 + (uint u - 0xD800) * 0x400 + (uint l - 0xDC00)"

fun code_points :: "jsstring \<Rightarrow> int list" where
  "code_points [] = []"
| "code_points [u] = [unit_code_point u]"
| "code_points (u # l # s) =
     (if is_high u \<and> is_low l then pair_code_point u l # code_points s
      else unit_code_point u # code_points (l # s))"

text \<open>The UTF-8 bytes of a code point, and of a string.\<close>

definition utf8_of_code_point :: "int \<Rightarrow> Buffer" where
  "utf8_of_code_point cp =
     (if cp < 0x80 then [word_of_int cp]
      else if cp < 0x800 then [word_of_int (0xC0 + cp div 0x40), word_of_int (0x80 + cp mod 0x40)]
      else if cp < 0x10000 then
        [word_of_int (0xE0 + cp div 0x1000), word_of_int (0x80 + cp div 0x40 mod 0x40), word_of_int (0x80 + cp mod 0x40)]
      else
        [word_of_int (0xF0 + cp div 0x40000), word_of_int (0x80 + cp div 0x1000 mod 0x40),
         word_of_int (0x80 + cp div 0x40 mod 0x40), word_of_int (0x80 + cp mod 0x40)])"

definition utf8_bytes :: "jsstring \<Rightarrow> Buffer" where
  "utf8_bytes s = concat (map utf8_of_code_point (code_points s))"

text \<open>
  The UTF-8 decoder of \<open>buffer.toString\<close> (the decoder of the Encoding Standard, without
  the byte order mark handling): its state is the number of continuation bytes needed,
  the code point so far and the bounds of the next byte. A byte outside the bounds ends
  the sequence with U+FFFD and is read again as the start of a sequence; so does the end
  of the input in the middle of a sequence.
\<close>

function utf8_decode :: "nat \<Rightarrow> int \<Rightarrow> int \<Rightarrow> int \<Rightarrow> Buffer \<Rightarrow> int list" where
  "utf8_decode needed cp lower upper [] = (if needed = 0 then [] else [0xFFFD])"
| "utf8_decode needed cp lower upper (b # bs) =
     (let x = uint b
      in if needed = 0 then
           (if x \<le> 0x7F then x # utf8_decode 0 0 0x80 0xBF bs
            else if 0xC2 \<le> x \<and> x \<le> 0xDF then utf8_decode 1 (x mod 0x20) 0x80 0xBF bs
            else if 0xE0 \<le> x \<and> x \<le> 0xEF then
              utf8_decode 2 (x mod 0x10) (if x = 0xE0 then 0xA0 else 0x80)
                (if x = 0xED then 0x9F else 0xBF) bs
            else if 0xF0 \<le> x \<and> x \<le> 0xF4 then
              utf8_decode 3 (x mod 0x08) (if x = 0xF0 then 0x90 else 0x80)
                (if x = 0xF4 then 0x8F else 0xBF) bs
            else 0xFFFD # utf8_decode 0 0 0x80 0xBF bs)
         else if x < lower \<or> upper < x then 0xFFFD # utf8_decode 0 0 0x80 0xBF (b # bs)
         else
           (let cp = cp * 0x40 + x mod 0x40
            in if needed = 1 then cp # utf8_decode 0 0 0x80 0xBF bs
               else utf8_decode (needed - 1) cp 0x80 0xBF bs))"
  by pat_completeness auto

termination
  by (relation "measure (\<lambda>(needed, cp, lower, upper, bs). 2 * length bs + (if needed = 0 then 0 else 1))")
     auto

definition utf16_of_code_point :: "int \<Rightarrow> jsstring" where
  "utf16_of_code_point cp =
     (if cp < 0x10000 then [word_of_int cp]
      else [word_of_int (0xD800 + (cp - 0x10000) div 0x400), word_of_int (0xDC00 + (cp - 0x10000) mod 0x400)])"

definition utf8_string :: "Buffer \<Rightarrow> jsstring" where
  "utf8_string bs = concat (map utf16_of_code_point (utf8_decode 0 0 0x80 0xBF bs))"

text \<open>A string is well formed when it has no surrogate without its partner.\<close>

fun well_formed :: "jsstring \<Rightarrow> bool" where
  "well_formed [] = True"
| "well_formed [u] = (\<not> is_high u \<and> \<not> is_low u)"
| "well_formed (u # l # s) =
     (if is_high u then is_low l \<and> well_formed s else \<not> is_low u \<and> well_formed (l # s))"


definition byteLength :: "jsstring \<Rightarrow> nat" where
  "byteLength s = length (utf8_bytes s)"

text \<open>
  \<open>buf.toString('utf8', start, end)\<close>: a start below 0 is 0, an end beyond the buffer is
  the buffer's length, and an empty or inverted range gives the empty string. Nothing is
  thrown.
\<close>

definition toString :: "Buffer \<Rightarrow> int \<Rightarrow> int \<Rightarrow> jsstring" where
  "toString buf start end =
     (let len = int (length buf);
          s = (if start \<le> 0 then 0 else start);
          e = (if end > len then len else end)
      in if s \<ge> len \<or> e \<le> s then []
         else utf8_string (take (nat (e - s)) (drop (nat s) buf)))"

text \<open>
  \<open>buf.slice(start, end)\<close>: a negative index counts from the end of the buffer, both
  are clamped to the buffer, and an inverted range gives the empty buffer. Nothing is
  thrown.
\<close>

definition slice_index :: "Buffer \<Rightarrow> int \<Rightarrow> int" where
  "slice_index buf i =
     (let len = int (length buf)
      in if i < 0 then max (len + i) 0 else min i len)"

definition slice :: "Buffer \<Rightarrow> int \<Rightarrow> int \<Rightarrow> Buffer" where
  "slice buf start end =
     (let s = slice_index buf start; e = slice_index buf end
      in take (nat (e - s)) (drop (nat s) buf))"

definition slice_from :: "Buffer \<Rightarrow> int \<Rightarrow> Buffer" where
  "slice_from buf start = slice buf start (int (length buf))"

subsection \<open>The 32-bit integer operators\<close>

text \<open>
  \<open>&\<close>, \<open>|\<close>, \<open><<\<close> and \<open>>>\<close> convert their operands to 32-bit signed integers, take
  the shift count modulo 32, and give a 32-bit signed integer.
\<close>

definition ToInt32 :: "int \<Rightarrow> int" where
  "ToInt32 k = signed_take_bit 31 k"

definition js_and :: "int \<Rightarrow> int \<Rightarrow> int" where
  "js_and a b = ToInt32 a AND ToInt32 b"

definition js_or :: "int \<Rightarrow> int \<Rightarrow> int" where
  "js_or a b = ToInt32 a OR ToInt32 b"

definition js_shl :: "int \<Rightarrow> int \<Rightarrow> int" where
  "js_shl a s = ToInt32 (push_bit (nat (s mod 32)) (ToInt32 a))"

definition js_sar :: "int \<Rightarrow> int \<Rightarrow> int" where
  "js_sar a s = drop_bit (nat (s mod 32)) (ToInt32 a)"

text \<open>\<open>buffer[idx] = v\<close> stores \<open>v\<close> modulo 256, and nothing when \<open>idx\<close> is out of range.\<close>

definition set_byte :: "Buffer \<Rightarrow> nat \<Rightarrow> int \<Rightarrow> Buffer" where
  "set_byte buf idx v = buf[idx := word_of_int v]"


section \<open>BasicTypes.ts: the codec of the protocol's primitive types\<close>


definition decodeBoolean :: "Buffer \<Rightarrow> int \<Rightarrow> error + (bool \<times> int)" where
  "decodeBoolean buffer offset =
     (case readIntBE 1 buffer offset of
        Inl e \<Rightarrow> Inl e
      | Inr v \<Rightarrow> Inr (v \<noteq> 0, offset + 1))"


definition decodeInt8 :: "Buffer \<Rightarrow> int \<Rightarrow> error + (int \<times> int)" where
  "decodeInt8 buffer offset =
     (case readIntBE 1 buffer offset of Inl e \<Rightarrow> Inl e | Inr v \<Rightarrow> Inr (v, offset + 1))"


definition decodeInt16 :: "Buffer \<Rightarrow> int \<Rightarrow> error + (int \<times> int)" where
  "decodeInt16 buffer offset =
     (case readIntBE 2 buffer offset of Inl e \<Rightarrow> Inl e | Inr v \<Rightarrow> Inr (v, offset + 2))"


definition decodeInt32 :: "Buffer \<Rightarrow> int \<Rightarrow> error + (int \<times> int)" where
  "decodeInt32 buffer offset =
     (case readIntBE 4 buffer offset of Inl e \<Rightarrow> Inl e | Inr v \<Rightarrow> Inr (v, offset + 4))"


definition decodeInt64 :: "Buffer \<Rightarrow> int \<Rightarrow> error + (int \<times> int)" where
  "decodeInt64 buffer offset =
     (case readIntBE 8 buffer offset of Inl e \<Rightarrow> Inl e | Inr v \<Rightarrow> Inr (v, offset + 8))"


definition decodeUInt8 :: "Buffer \<Rightarrow> int \<Rightarrow> error + (int \<times> int)" where
  "decodeUInt8 buffer offset =
     (case readUIntBE 1 buffer offset of Inl e \<Rightarrow> Inl e | Inr v \<Rightarrow> Inr (v, offset + 1))"


definition decodeUInt16 :: "Buffer \<Rightarrow> int \<Rightarrow> error + (int \<times> int)" where
  "decodeUInt16 buffer offset =
     (case readUIntBE 2 buffer offset of Inl e \<Rightarrow> Inl e | Inr v \<Rightarrow> Inr (v, offset + 2))"


definition decodeUInt32 :: "Buffer \<Rightarrow> int \<Rightarrow> error + (int \<times> int)" where
  "decodeUInt32 buffer offset =
     (case readUIntBE 4 buffer offset of Inl e \<Rightarrow> Inl e | Inr v \<Rightarrow> Inr (v, offset + 4))"


definition decodeUInt64 :: "Buffer \<Rightarrow> int \<Rightarrow> error + (int \<times> int)" where
  "decodeUInt64 buffer offset =
     (case readUIntBE 8 buffer offset of Inl e \<Rightarrow> Inl e | Inr v \<Rightarrow> Inr (v, offset + 8))"


definition decodeFloat :: "Buffer \<Rightarrow> int \<Rightarrow> error + (float64 \<times> int)" where
  "decodeFloat buffer offset =
     (case readFloatBE buffer offset of Inl e \<Rightarrow> Inl e | Inr v \<Rightarrow> Inr (v, offset + 4))"


definition decodeDouble :: "Buffer \<Rightarrow> int \<Rightarrow> error + (float64 \<times> int)" where
  "decodeDouble buffer offset =
     (case readDoubleBE buffer offset of Inl e \<Rightarrow> Inl e | Inr v \<Rightarrow> Inr (v, offset + 8))"

subsection \<open>Nullable strings and byte arrays\<close>

definition encodeString :: "jsstring option \<Rightarrow> error + Buffer" where
  "encodeString v =
     (case v of
        None \<Rightarrow> Inr [0xFF, 0xFF]
      | Some s \<Rightarrow>
          (let len = byteLength s
           in case writeIntBE 2 (alloc (2 + len)) (int len) 0 of
                Inl e \<Rightarrow> Inl e
              | Inr buffer \<Rightarrow> Inr (blit (utf8_bytes s) buffer 2)))"

definition decodeString :: "Buffer \<Rightarrow> int \<Rightarrow> error + (jsstring option \<times> int)" where
  "decodeString buffer offset =
     (case readIntBE 2 buffer offset of
        Inl e \<Rightarrow> Inl e
      | Inr len \<Rightarrow>
          (let offset = offset + 2
           in if len < 0 then Inr (None, offset)
              else Inr (Some (toString buffer offset (offset + len)), offset + len)))"


definition decodeBytes :: "Buffer \<Rightarrow> int \<Rightarrow> error + (Buffer option \<times> int)" where
  "decodeBytes buffer offset =
     (case readIntBE 4 buffer offset of
        Inl e \<Rightarrow> Inl e
      | Inr len \<Rightarrow>
          (let offset = offset + 4
           in if len < 0 then Inr (None, offset)
              else Inr (Some (slice buffer offset (offset + len)), offset + len)))"

subsection \<open>The variable-length length prefix of the compact forms\<close>

text \<open>
  The three compact encoders hold the same two loops and the three compact decoders the
  same \<open>do ... while\<close>; each loop is one function here.
  \<^verbatim>\<open>
  let sizeOfLength = 1; let len = encodedLength;
  while (len > 127) { sizeOfLength++; len = len >> 7; }
  \<close>
\<close>

lemma js_sar_less: "127 < len \<Longrightarrow> js_sar len 7 < len"
proof -
  assume big: "127 < len"
  let ?k = "ToInt32 len"
  have range: "- (2 ^ 31) \<le> ?k" "?k < 2 ^ 31"
    unfolding ToInt32_def
    by (rule signed_take_bit_int_greater_eq_minus_exp, rule signed_take_bit_int_less_exp)
  have sar: "js_sar len 7 = ?k div 128"
    by (simp add: js_sar_def drop_bit_eq_div)
  show ?thesis
  proof (cases "len < 2 ^ 31")
    case True
    with big have "?k = len"
      unfolding ToInt32_def by (intro signed_take_bit_int_eq_self) auto
    with sar big show ?thesis by simp
  next
    case False
    have "?k div 128 < 2 ^ 31" using range by simp
    with sar False show ?thesis by simp
  qed
qed

function sizeOfLength_loop :: "nat \<Rightarrow> int \<Rightarrow> nat" where
  "sizeOfLength_loop sizeOfLength len =
     (if len > 127 then sizeOfLength_loop (sizeOfLength + 1) (js_sar len 7)
      else sizeOfLength)"
  by pat_completeness auto
termination
  by (relation "measure (\<lambda>(n, len). nat len)") (use js_sar_less in force)+

text \<open>
  \<^verbatim>\<open>
  let idx = 0; len = encodedLength;
  while (len > 127) { buffer[idx++] = (len & 0x7F) | 0x80; len = len >> 7; }
  buffer[idx++] = len & 0x7F;
  \<close>
\<close>

function writeLength_loop :: "Buffer \<Rightarrow> nat \<Rightarrow> int \<Rightarrow> Buffer \<times> nat \<times> int" where
  "writeLength_loop buffer idx len =
     (if len > 127
      then writeLength_loop (set_byte buffer idx (js_or (js_and len 0x7F) 0x80)) (idx + 1)
             (js_sar len 7)
      else (buffer, idx, len))"
  by pat_completeness auto
termination
  by (relation "measure (\<lambda>(b, i, len). nat len)") (use js_sar_less in force)+

definition writeLength :: "Buffer \<Rightarrow> int \<Rightarrow> Buffer \<times> nat" where
  "writeLength buffer encodedLength =
     (case writeLength_loop buffer 0 encodedLength of
        (buffer, idx, len) \<Rightarrow> (set_byte buffer idx (js_and len 0x7F), idx + 1))"

text \<open>
  \<^verbatim>\<open>
  do {
    byteRead = buffer.readUInt8(offset++);
    length |= (byteRead & 0x7F) << shift;
    shift += 7;
  } while (byteRead & 0x80);
  \<close>
\<close>

function readLength_loop :: "Buffer \<Rightarrow> int \<Rightarrow> int \<Rightarrow> int \<Rightarrow> error + (int \<times> int)" where
  "readLength_loop buffer offset len shift =
     (case readUIntBE 1 buffer offset of
        Inl e \<Rightarrow> Inl e
      | Inr byteRead \<Rightarrow>
          (let len = js_or len (js_shl (js_and byteRead 0x7F) shift)
           in if js_and byteRead 0x80 \<noteq> 0
              then readLength_loop buffer (offset + 1) len (shift + 7)
              else Inr (len, offset + 1)))"
  by pat_completeness auto
termination
  by (relation "measure (\<lambda>(b, off, len, sh). nat (int (length b) - off))")
     (auto simp: readUIntBE_def in_bounds_def split: if_splits)

definition encodeCompactString :: "jsstring option \<Rightarrow> Buffer" where
  "encodeCompactString v =
     (case v of
        None \<Rightarrow> [0x00]
      | Some s \<Rightarrow>
          (let len = byteLength s;
               encodedLength = int len + 1;
               sizeOfLength = sizeOfLength_loop 1 encodedLength;
               buffer = alloc (sizeOfLength + len)
           in case writeLength buffer encodedLength of
                (buffer, idx) \<Rightarrow> blit (utf8_bytes s) buffer idx))"

definition decodeCompactString :: "Buffer \<Rightarrow> int \<Rightarrow> error + (jsstring option \<times> int)" where
  "decodeCompactString buffer offset =
     (case readLength_loop buffer offset 0 0 of
        Inl e \<Rightarrow> Inl e
      | Inr (len, offset) \<Rightarrow>
          if len = 0 then Inr (None, offset)
          else (let len = len - 1
                in Inr (Some (toString buffer offset (offset + len)), offset + len)))"


definition decodeCompactBytes :: "Buffer \<Rightarrow> int \<Rightarrow> error + (Buffer option \<times> int)" where
  "decodeCompactBytes buffer offset =
     (case readLength_loop buffer offset 0 0 of
        Inl e \<Rightarrow> Inl e
      | Inr (len, offset) \<Rightarrow>
          if len = 0 then Inr (None, offset)
          else (let len = len - 1
                in Inr (Some (slice buffer offset (offset + len)), offset + len)))"

subsection \<open>Arrays\<close>





text \<open>\<open>for (let i = 0; i < length; i++)\<close> of the decoders: \<open>n\<close> elements are left to read.\<close>

fun decodeValues ::
  "(Buffer \<Rightarrow> int \<Rightarrow> error + ('a \<times> int)) \<Rightarrow> Buffer \<Rightarrow> nat \<Rightarrow> 'a list \<Rightarrow> int
     \<Rightarrow> error + ('a list \<times> int)" where
  "decodeValues decodeFunc buffer 0 values offset = Inr (values, offset)"
| "decodeValues decodeFunc buffer (Suc n) values offset =
     (case decodeFunc buffer offset of
        Inl e \<Rightarrow> Inl e
      | Inr (v, newOffset) \<Rightarrow> decodeValues decodeFunc buffer n (values @ [v]) newOffset)"

definition decodeArray ::
  "Buffer \<Rightarrow> (Buffer \<Rightarrow> int \<Rightarrow> error + ('a \<times> int)) \<Rightarrow> int \<Rightarrow> error + ('a list option \<times> int)" where
  "decodeArray buffer decodeFunc offset =
     (case readIntBE 4 buffer offset of
        Inl e \<Rightarrow> Inl e
      | Inr len \<Rightarrow>
          (let offset = offset + 4
           in if len < 0 then Inr (None, offset)
              else (case decodeValues decodeFunc buffer (nat len) [] offset of
                      Inl e \<Rightarrow> Inl e
                    | Inr (values, offset) \<Rightarrow> Inr (Some values, offset))))"


definition decodeCompactArray ::
  "Buffer \<Rightarrow> (Buffer \<Rightarrow> int \<Rightarrow> error + ('a \<times> int)) \<Rightarrow> int \<Rightarrow> error + ('a list option \<times> int)" where
  "decodeCompactArray buffer decodeFunc offset =
     (case readLength_loop buffer offset 0 0 of
        Inl e \<Rightarrow> Inl e
      | Inr (len, offset) \<Rightarrow>
          if len = 0 then Inr (None, offset)
          else (case decodeValues decodeFunc buffer (nat (len - 1)) [] offset of
                  Inl e \<Rightarrow> Inl e
                | Inr (values, offset) \<Rightarrow> Inr (Some values, offset)))"

text \<open>
  The bytes the two loops of a compact encoder write for an encoded length: seven bits to
  a byte, the low bits first, the high bit of a byte set when another byte follows.
\<close>

function varint :: "int \<Rightarrow> Buffer" where
  "varint len =
     (if len > 127 then word_of_int (js_or (js_and len 0x7F) 0x80) # varint (js_sar len 7)
      else [word_of_int (js_and len 0x7F)])"
  by pat_completeness auto
termination
  by (relation "measure nat") (use js_sar_less in force)+

declare varint.simps [simp del] sizeOfLength_loop.simps [simp del]
  writeLength_loop.simps [simp del] readLength_loop.simps [simp del]

text \<open>
  A value round-trips through an encoder and a decoder when the encoder accepts it and
  the decoder, at the offset where the encoding starts in any buffer that holds it, gives
  the value back with the offset behind the encoding.
\<close>

definition roundtrips ::
  "('a \<Rightarrow> error + Buffer) \<Rightarrow> (Buffer \<Rightarrow> int \<Rightarrow> error + ('a \<times> int)) \<Rightarrow> 'a \<Rightarrow> bool" where
  "roundtrips enc dec v \<longleftrightarrow>
     (\<exists>bs. enc v = Inr bs \<and>
        (\<forall>pre suf. dec (pre @ bs @ suf) (int (length pre))
                      = Inr (v, int (length pre) + int (length bs))))"

section \<open>Headers.ts: the request header\<close>

text \<open>
  \<open>clientId\<close> is declared a \<open>string\<close>; \<open>None\<close> is a \<open>null\<close> that reaches the header at
  run time. \<open>truthy\<close> is JavaScript's test \<open>this.clientId ? ... : ...\<close>, false for
  \<open>null\<close> and for the empty string.
\<close>

record RequestHeader =
  hdr_apiKey :: int
  hdr_apiVersion :: int
  hdr_correlationId :: int
  hdr_clientId :: "jsstring option"

definition truthy :: "jsstring option \<Rightarrow> bool" where
  "truthy s \<longleftrightarrow> s \<noteq> None \<and> s \<noteq> Some []"

definition RequestHeader_encode :: "RequestHeader \<Rightarrow> error + Buffer" where
  "RequestHeader_encode h =
     (let clientIdLength = (if truthy (hdr_clientId h) then int (byteLength (the (hdr_clientId h))) else - 1);
          size = 2 + 2 + 4 + 2 + (if clientIdLength > 0 then nat clientIdLength else 0);
          buffer = alloc size
      in case writeIntBE 2 buffer (hdr_apiKey h) 0 of
           Inl e \<Rightarrow> Inl e
         | Inr buffer \<Rightarrow>
      (case writeIntBE 2 buffer (hdr_apiVersion h) 2 of
           Inl e \<Rightarrow> Inl e
         | Inr buffer \<Rightarrow>
      (case writeIntBE 4 buffer (hdr_correlationId h) 4 of
           Inl e \<Rightarrow> Inl e
         | Inr buffer \<Rightarrow>
      (if truthy (hdr_clientId h)
       then (case writeIntBE 2 buffer clientIdLength 8 of
               Inl e \<Rightarrow> Inl e
             | Inr buffer \<Rightarrow> Inr (blit (utf8_bytes (the (hdr_clientId h))) buffer 10))
       else writeIntBE 2 buffer (- 1) 8))))"

definition RequestHeader_decode :: "Buffer \<Rightarrow> error + RequestHeader" where
  "RequestHeader_decode buffer =
     (case readIntBE 2 buffer 0 of
        Inl e \<Rightarrow> Inl e
      | Inr apiKey \<Rightarrow>
     (case readIntBE 2 buffer 2 of
        Inl e \<Rightarrow> Inl e
      | Inr apiVersion \<Rightarrow>
     (case readIntBE 4 buffer 4 of
        Inl e \<Rightarrow> Inl e
      | Inr correlationId \<Rightarrow>
     (case readIntBE 2 buffer 8 of
        Inl e \<Rightarrow> Inl e
      | Inr clientIdLength \<Rightarrow>
          (let clientId = (if clientIdLength \<ge> 0 then toString buffer 10 (10 + clientIdLength) else [])
           in Inr \<lparr>hdr_apiKey = apiKey, hdr_apiVersion = apiVersion,
                    hdr_correlationId = correlationId, hdr_clientId = Some clientId\<rparr>)))))"



section \<open>Properties of the codec\<close>

subsection \<open>Fixed-width integers\<close>

lemma length_be_bytes [simp]: "length (be_bytes n v) = n"
  by (induction n arbitrary: v) auto

lemma be_value_snoc: "be_value (bs @ [b]) = be_value bs * 256 + uint b"
  by (simp add: be_value_def)

lemma be_value_be_bytes: "be_value (be_bytes n v) = v mod 256 ^ n"
proof (induction n arbitrary: v)
  case 0
  then show ?case by (simp add: be_value_def)
next
  case (Suc n)
  have "uint (word_of_int v :: byte) = v mod 256"
    by (simp add: uint_word_of_int)
  then have "be_value (be_bytes (Suc n) v) = (v div 256) mod 256 ^ n * 256 + v mod 256"
    by (simp add: be_value_snoc Suc.IH)
  also have "\<dots> = v mod (256 * 256 ^ n)"
    using zmod_zmult2_eq [where a=v and b=256 and c="256 ^ n"] by simp
  finally show ?case by simp
qed


lemma blit_alloc: "blit src (alloc (length src)) 0 = src"
  by (simp add: blit_def alloc_def)

lemma take_drop_mid: "take (length bs) (drop (length pre) (pre @ bs @ suf)) = bs"
  by simp


lemma readIntBE_at:
  "length bs = w \<Longrightarrow>
     readIntBE w (pre @ bs @ suf) (int (length pre)) = Inr (to_signed w (be_value bs))"
  by (simp add: readIntBE_def in_bounds_def)

lemma to_signed_mod:
  assumes "0 < w" "- (2 ^ (8 * w - 1)) \<le> v" "v < 2 ^ (8 * w - 1)"
  shows "to_signed w (v mod 256 ^ w) = v"
proof -
  have p: "(256::int) ^ w = 2 ^ (8 * w)"
    by (simp add: power_mult)
  have h: "(2::int) ^ (8 * w) = 2 * 2 ^ (8 * w - 1)"
    using assms(1) by (cases w) (simp_all add: power_add)
  show ?thesis
  proof (cases "0 \<le> v")
    case True
    then have "v mod 2 ^ (8 * w) = v" using assms(3) h by simp
    then show ?thesis using assms(3) by (simp add: to_signed_def p)
  next
    case False
    have "v mod 2 ^ (8 * w) = (v + 2 ^ (8 * w)) mod 2 ^ (8 * w)"
      by simp
    also have "\<dots> = v + 2 ^ (8 * w)"
      using False assms(2) h by (intro mod_pos_pos_trivial) auto
    finally have "v mod 2 ^ (8 * w) = v + 2 ^ (8 * w)" .
    then show ?thesis using False assms(2) by (simp add: to_signed_def p h)
  qed
qed

lemma writeIntBE_alloc:
  "- (2 ^ (8 * w - 1)) \<le> v \<Longrightarrow> v < 2 ^ (8 * w - 1) \<Longrightarrow>
     writeIntBE w (alloc w) v 0 = Inr (be_bytes w v)"
  using blit_alloc [of "be_bytes w v"] by (simp add: writeIntBE_def alloc_def)


subsection \<open>The 32-bit operators on small values\<close>












subsection \<open>The variable-length length prefix\<close>



lemma varint_nonempty: "varint len \<noteq> []"
  by (subst varint.simps) simp








subsection \<open>Round trips of the primitive types\<close>
























lemma utf8_string_Nil: "utf8_string [] = []"
  by (simp add: utf8_string_def)




lemma digits: "0 \<le> x \<Longrightarrow> x < b \<Longrightarrow> (a * b + x) div b = (a::int)" "0 \<le> x \<Longrightarrow> x < b \<Longrightarrow> (a * b + x) mod b = x"
  by (simp_all add: div_pos_pos_trivial)
















lemma slice_at:
  "slice (pre @ bs @ suf) (int (length pre)) (int (length pre) + int (length bs)) = bs"
  by (simp add: slice_def slice_index_def Let_def)

lemma rt_signed:
  assumes "0 < w" "- (2 ^ (8 * w - 1)) \<le> v" "v < 2 ^ (8 * w - 1)"
  shows "writeIntBE w (alloc w) v 0 = Inr (be_bytes w v)"
    and "readIntBE w (pre @ be_bytes w v @ suf) (int (length pre)) = Inr v"
  using assms by (simp_all add: writeIntBE_alloc readIntBE_at be_value_be_bytes to_signed_mod)
















lemma slice_at':
  "off = int (length pre) \<Longrightarrow> n = int (length bs) \<Longrightarrow>
     slice (pre @ bs @ suf) off (off + n) = bs"
  by (simp add: slice_at)









lemma length_alloc [simp]: "length (alloc n) = n"
  by (simp add: alloc_def)



















text \<open>
  A string that is one high surrogate, U+D800, is encoded as the three bytes of U+FFFD
  and decoded as U+FFFD, by the standard form and by the compact form.
\<close>

theorem codec_round_trip_counterexample:
  "\<not> well_formed [0xD800]
 \<and> encodeString (Some [0xD800]) = Inr [0x00, 0x03, 0xEF, 0xBF, 0xBD]
 \<and> decodeString [0x00, 0x03, 0xEF, 0xBF, 0xBD] 0 = Inr (Some [0xFFFD], 5)
 \<and> encodeCompactString (Some [0xD800]) = [0x04, 0xEF, 0xBF, 0xBD]
 \<and> decodeCompactString [0x04, 0xEF, 0xBF, 0xBD] 0 = Inr (Some [0xFFFD], 4)
 \<and> \<not> roundtrips encodeString decodeString (Some [0xD800])
 \<and> \<not> roundtrips (\<lambda>v. Inr (encodeCompactString v)) decodeCompactString (Some [0xD800])"
proof -
  have e: "encodeString (Some [0xD800]) = Inr [0x00, 0x03, 0xEF, 0xBF, 0xBD]"
    and d: "decodeString [0x00, 0x03, 0xEF, 0xBF, 0xBD] 0 = Inr (Some [0xFFFD], 5)"
    and ec: "encodeCompactString (Some [0xD800]) = [0x04, 0xEF, 0xBF, 0xBD]"
    and dc: "decodeCompactString [0x04, 0xEF, 0xBF, 0xBD] 0 = Inr (Some [0xFFFD], 4)"
    and w: "\<not> well_formed [0xD800]"
    by code_simp+
  have n1: "\<not> roundtrips encodeString decodeString (Some [0xD800])"
  proof
    assume "roundtrips encodeString decodeString (Some [0xD800])"
    then have "decodeString ([] @ [0x00, 0x03, 0xEF, 0xBF, 0xBD] @ []) (int (length ([] :: Buffer)))
                 = Inr (Some [0xD800], int (length ([] :: Buffer)) + int (length [0x00, 0x03, 0xEF, 0xBF, 0xBD :: byte]))"
      unfolding roundtrips_def e by blast
    then show False using d by simp
  qed
  have n2: "\<not> roundtrips (\<lambda>v. Inr (encodeCompactString v)) decodeCompactString (Some [0xD800])"
  proof
    assume "roundtrips (\<lambda>v. Inr (encodeCompactString v)) decodeCompactString (Some [0xD800])"
    then have "decodeCompactString ([] @ [0x04, 0xEF, 0xBF, 0xBD] @ []) (int (length ([] :: Buffer)))
                 = Inr (Some [0xD800], int (length ([] :: Buffer)) + int (length [0x04, 0xEF, 0xBF, 0xBD :: byte]))"
      unfolding roundtrips_def ec by blast
    then show False using dc by simp
  qed
  from w e d ec dc n1 n2 show ?thesis by blast
qed

subsection \<open>Decoding past the end of the buffer\<close>

lemma toString_past_end:
  assumes "0 \<le> s" "s \<le> int (length buf)" "int (length buf) < e"
  shows "toString buf s e = utf8_string (drop (nat s) buf)"
proof (cases "s = int (length buf)")
  case True
  then show ?thesis by (simp add: toString_def Let_def utf8_string_Nil)
next
  case False
  with assms have "s < int (length buf)" by simp
  with assms show ?thesis by (simp add: toString_def Let_def)
qed

lemma slice_past_end:
  assumes "0 \<le> s" "s \<le> int (length buf)" "int (length buf) < e"
  shows "slice buf s e = drop (nat s) buf"
  using assms by (simp add: slice_def slice_index_def Let_def)

lemma readIntBE_in_bounds: "readIntBE w buf off = Inr v \<Longrightarrow> in_bounds buf off w"
  by (simp add: readIntBE_def split: if_splits)

lemma decodeValues_Int32_truncated:
  "0 < n \<Longrightarrow> 0 \<le> off \<Longrightarrow> int (length buf) < off + 4 * int n \<Longrightarrow>
     decodeValues decodeInt32 buf n acc off = Inl RangeError"
proof (induction n arbitrary: acc off)
  case 0
  then show ?case by simp
next
  case (Suc n)
  show ?case
  proof (cases "in_bounds buf off 4")
    case False
    then show ?thesis by (simp add: decodeInt32_def readIntBE_def)
  next
    case True
    then obtain v where v: "decodeInt32 buf off = Inr (v, off + 4)"
      by (simp add: decodeInt32_def readIntBE_def)
    have "0 < n" using True Suc.prems by (cases n) (auto simp: in_bounds_def)
    moreover have "int (length buf) < (off + 4) + 4 * int n" using Suc.prems by simp
    ultimately have "decodeValues decodeInt32 buf n (acc @ [v]) (off + 4) = Inl RangeError"
      using Suc.prems(2) by (intro Suc.IH) auto
    with v show ?thesis by simp
  qed
qed

text \<open>
  Claim C9, as the code has it. A decoder whose first fixed-width field (the value of an
  integer, float or boolean, the length prefix of a string, byte array or array, the first
  byte of a compact length) does not lie inside the buffer fails with Node's
  \<open>RangeError\<close>, and so does an array of int32 whose declared count extends past the
  end. A string or byte array whose length prefix is inside the buffer and whose declared
  length extends past the end does not fail: the decoder returns what is there, for a
  byte array the bytes and for a string their UTF-8 decoding, in which a character cut
  short by the end of the buffer is U+FFFD, and an offset advanced by the declared length.
\<close>

theorem truncated_decode:
  "(\<not> in_bounds buffer offset 1 \<longrightarrow>
       decodeInt8 buffer offset = Inl RangeError \<and> decodeUInt8 buffer offset = Inl RangeError
     \<and> decodeBoolean buffer offset = Inl RangeError
     \<and> decodeCompactString buffer offset = Inl RangeError
     \<and> decodeCompactBytes buffer offset = Inl RangeError
     \<and> decodeCompactArray buffer decodeFunc offset = Inl RangeError)
 \<and> (\<not> in_bounds buffer offset 2 \<longrightarrow>
       decodeInt16 buffer offset = Inl RangeError \<and> decodeUInt16 buffer offset = Inl RangeError
     \<and> decodeString buffer offset = Inl RangeError)
 \<and> (\<not> in_bounds buffer offset 4 \<longrightarrow>
       decodeInt32 buffer offset = Inl RangeError \<and> decodeUInt32 buffer offset = Inl RangeError
     \<and> decodeFloat buffer offset = Inl RangeError
     \<and> decodeBytes buffer offset = Inl RangeError
     \<and> decodeArray buffer decodeFunc offset = Inl RangeError)
 \<and> (\<not> in_bounds buffer offset 8 \<longrightarrow>
       decodeInt64 buffer offset = Inl RangeError \<and> decodeUInt64 buffer offset = Inl RangeError
     \<and> decodeDouble buffer offset = Inl RangeError)
 \<and> (readIntBE 4 buffer offset = Inr len \<and> 0 \<le> len \<and> int (length buffer) < offset + 4 + 4 * len \<longrightarrow>
       decodeArray buffer decodeInt32 offset = Inl RangeError)
 \<and> (readIntBE 2 buffer offset = Inr len \<and> 0 \<le> len \<and> int (length buffer) < offset + 2 + len \<longrightarrow>
       decodeString buffer offset
         = Inr (Some (utf8_string (drop (nat (offset + 2)) buffer)), offset + 2 + len))
 \<and> (readIntBE 4 buffer offset = Inr len \<and> 0 \<le> len \<and> int (length buffer) < offset + 4 + len \<longrightarrow>
       decodeBytes buffer offset = Inr (Some (drop (nat (offset + 4)) buffer), offset + 4 + len))"
proof (intro conjI impI)
  assume "\<not> in_bounds buffer offset 1"
  then have r: "readUIntBE 1 buffer offset = Inl RangeError" "readIntBE 1 buffer offset = Inl RangeError"
    by (simp_all add: readUIntBE_def readIntBE_def)
  then have l: "readLength_loop buffer offset 0 0 = Inl RangeError"
    by (subst readLength_loop.simps) simp
  show "decodeInt8 buffer offset = Inl RangeError" "decodeUInt8 buffer offset = Inl RangeError"
    "decodeBoolean buffer offset = Inl RangeError"
    using r by (simp_all add: decodeInt8_def decodeUInt8_def decodeBoolean_def)
  show "decodeCompactString buffer offset = Inl RangeError"
    "decodeCompactBytes buffer offset = Inl RangeError"
    "decodeCompactArray buffer decodeFunc offset = Inl RangeError"
    using l by (simp_all add: decodeCompactString_def decodeCompactBytes_def decodeCompactArray_def)
next
  assume "\<not> in_bounds buffer offset 2"
  then have r: "readUIntBE 2 buffer offset = Inl RangeError" "readIntBE 2 buffer offset = Inl RangeError"
    by (simp_all add: readUIntBE_def readIntBE_def)
  show "decodeInt16 buffer offset = Inl RangeError" "decodeUInt16 buffer offset = Inl RangeError"
    "decodeString buffer offset = Inl RangeError"
    using r by (simp_all add: decodeInt16_def decodeUInt16_def decodeString_def)
next
  assume "\<not> in_bounds buffer offset 4"
  then have r: "readUIntBE 4 buffer offset = Inl RangeError" "readIntBE 4 buffer offset = Inl RangeError"
    by (simp_all add: readUIntBE_def readIntBE_def)
  show "decodeInt32 buffer offset = Inl RangeError" "decodeUInt32 buffer offset = Inl RangeError"
    "decodeFloat buffer offset = Inl RangeError" "decodeBytes buffer offset = Inl RangeError"
    "decodeArray buffer decodeFunc offset = Inl RangeError"
    using r by (simp_all add: decodeInt32_def decodeUInt32_def decodeFloat_def readFloatBE_def
        decodeBytes_def decodeArray_def)
next
  assume "\<not> in_bounds buffer offset 8"
  then have r: "readUIntBE 8 buffer offset = Inl RangeError" "readIntBE 8 buffer offset = Inl RangeError"
    by (simp_all add: readUIntBE_def readIntBE_def)
  show "decodeInt64 buffer offset = Inl RangeError" "decodeUInt64 buffer offset = Inl RangeError"
    "decodeDouble buffer offset = Inl RangeError"
    using r by (simp_all add: decodeInt64_def decodeUInt64_def decodeDouble_def readDoubleBE_def)
next
  assume a: "readIntBE 4 buffer offset = Inr len \<and> 0 \<le> len \<and> int (length buffer) < offset + 4 + 4 * len"
  then have b: "in_bounds buffer offset 4" by (auto dest: readIntBE_in_bounds)
  have pos: "0 < nat len"
  proof (rule ccontr)
    assume "\<not> 0 < nat len"
    with a have "len = 0" by simp
    with a b show False by (simp add: in_bounds_def)
  qed
  have "decodeValues decodeInt32 buffer (nat len) [] (offset + 4) = Inl RangeError"
    using a b pos by (intro decodeValues_Int32_truncated) (auto simp: in_bounds_def)
  with a show "decodeArray buffer decodeInt32 offset = Inl RangeError"
    by (simp add: decodeArray_def Let_def)
next
  assume a: "readIntBE 2 buffer offset = Inr len \<and> 0 \<le> len \<and> int (length buffer) < offset + 2 + len"
  then have "in_bounds buffer offset 2" by (auto dest: readIntBE_in_bounds)
  then have "toString buffer (offset + 2) (offset + 2 + len) = utf8_string (drop (nat (offset + 2)) buffer)"
    using a by (intro toString_past_end) (auto simp: in_bounds_def)
  with a show "decodeString buffer offset
         = Inr (Some (utf8_string (drop (nat (offset + 2)) buffer)), offset + 2 + len)"
    by (simp add: decodeString_def Let_def)
next
  assume a: "readIntBE 4 buffer offset = Inr len \<and> 0 \<le> len \<and> int (length buffer) < offset + 4 + len"
  then have "in_bounds buffer offset 4" by (auto dest: readIntBE_in_bounds)
  then have "slice buffer (offset + 4) (offset + 4 + len) = drop (nat (offset + 4)) buffer"
    using a by (intro slice_past_end) (auto simp: in_bounds_def)
  with a show "decodeBytes buffer offset = Inr (Some (drop (nat (offset + 4)) buffer), offset + 4 + len)"
    by (simp add: decodeBytes_def Let_def)
qed

theorem truncated_decode_witness:
  "decodeInt8 [0x01] 1 = Inl RangeError \<and> decodeUInt8 [0x01] 1 = Inl RangeError
   \<and> decodeBoolean [0x01] 1 = Inl RangeError
   \<and> decodeCompactString [0x01] 1 = Inl RangeError
   \<and> decodeCompactBytes [0x01] 1 = Inl RangeError
   \<and> decodeCompactArray [0x01] decodeInt16 1 = Inl RangeError
   \<and> decodeInt16 [0x01] 0 = Inl RangeError \<and> decodeUInt16 [0x01] 0 = Inl RangeError
   \<and> decodeString [0x01] 0 = Inl RangeError
   \<and> decodeInt32 [0x00, 0x00, 0x01] 0 = Inl RangeError
   \<and> decodeUInt32 [0x00, 0x00, 0x01] 0 = Inl RangeError
   \<and> decodeFloat [0x00, 0x00, 0x01] 0 = Inl RangeError
   \<and> decodeBytes [0x00, 0x00, 0x01] 0 = Inl RangeError
   \<and> decodeArray [0x00, 0x00, 0x01] decodeInt16 0 = Inl RangeError
   \<and> decodeInt64 [0x00, 0x00, 0x00, 0x00, 0x00, 0x00, 0x01] 0 = Inl RangeError
   \<and> decodeUInt64 [0x00, 0x00, 0x00, 0x00, 0x00, 0x00, 0x01] 0 = Inl RangeError
   \<and> decodeDouble [0x00, 0x00, 0x00, 0x00, 0x00, 0x00, 0x01] 0 = Inl RangeError
   \<and> decodeArray [0x00, 0x00, 0x00, 0x02, 0x00, 0x00, 0x00, 0x07, 0x00] decodeInt32 0 = Inl RangeError
   \<and> decodeString [0x00, 0x05, 0x61, 0x62] 0
       = Inr (Some (utf8_string (drop (nat (0 + 2)) [0x00, 0x05, 0x61, 0x62])), 0 + 2 + 5)
   \<and> utf8_string (drop (nat (0 + 2)) [0x00, 0x05, 0x61, 0x62]) = [0x61, 0x62]
   \<and> decodeString [0x00, 0x05, 0x61, 0xC3] 0
       = Inr (Some (utf8_string (drop (nat (0 + 2)) [0x00, 0x05, 0x61, 0xC3])), 0 + 2 + 5)
   \<and> utf8_string (drop (nat (0 + 2)) [0x00, 0x05, 0x61, 0xC3]) = [0x61, 0xFFFD]
   \<and> decodeBytes [0x00, 0x00, 0x00, 0x05, 0x61, 0x62] 0
       = Inr (Some (drop (nat (0 + 4)) [0x00, 0x00, 0x00, 0x05, 0x61, 0x62]), 0 + 4 + 5)"
proof -
  have b1: "\<not> in_bounds [0x01] 1 1" and b2: "\<not> in_bounds [0x01] 0 2"
    and b4: "\<not> in_bounds [0x00, 0x00, 0x01] 0 4"
    and b8: "\<not> in_bounds [0x00, 0x00, 0x00, 0x00, 0x00, 0x00, 0x01] 0 8"
    by (simp_all add: in_bounds_def)
  have r2: "readIntBE 2 [0x00, 0x05, 0x61, 0x62] 0 = Inr 5"
    and r2': "readIntBE 2 [0x00, 0x05, 0x61, 0xC3] 0 = Inr 5"
    and u: "utf8_string (drop (nat (0 + 2)) [0x00, 0x05, 0x61, 0x62]) = [0x61, 0x62]"
    and u': "utf8_string (drop (nat (0 + 2)) [0x00, 0x05, 0x61, 0xC3]) = [0x61, 0xFFFD]"
    and r4: "readIntBE 4 [0x00, 0x00, 0x00, 0x05, 0x61, 0x62] 0 = Inr 5"
    and ra: "readIntBE 4 [0x00, 0x00, 0x00, 0x02, 0x00, 0x00, 0x00, 0x07, 0x00] 0 = Inr 2"
    by code_simp+
  show ?thesis
    using truncated_decode [of "[0x01]" 1 decodeInt16] b1
      truncated_decode [of "[0x01]" 0 decodeInt16] b2
      truncated_decode [of "[0x00, 0x00, 0x01]" 0 decodeInt16] b4
      truncated_decode [of "[0x00, 0x00, 0x00, 0x00, 0x00, 0x00, 0x01]" 0 decodeInt16] b8
      truncated_decode [of "[0x00, 0x00, 0x00, 0x02, 0x00, 0x00, 0x00, 0x07, 0x00]" 0 decodeInt16 2] ra
      truncated_decode [of "[0x00, 0x05, 0x61, 0x62]" 0 decodeInt16 5] r2
      truncated_decode [of "[0x00, 0x05, 0x61, 0xC3]" 0 decodeInt16 5] r2'
      truncated_decode [of "[0x00, 0x00, 0x00, 0x05, 0x61, 0x62]" 0 decodeInt16 5] r4
      u u'
    by simp
qed

text \<open>
  The claim as the specification states it fails: a string and a byte array that declare
  five bytes where two are left decode to the two bytes, with no error, and where the
  second byte left starts a character of two bytes, the string ends with U+FFFD.
\<close>

theorem truncated_decode_counterexample:
  "readIntBE 2 [0x00, 0x05, 0x61, 0x62] 0 = Inr 5
   \<and> decodeString [0x00, 0x05, 0x61, 0x62] 0 = Inr (Some [0x61, 0x62], 7)
   \<and> readIntBE 2 [0x00, 0x05, 0x61, 0xC3] 0 = Inr 5
   \<and> decodeString [0x00, 0x05, 0x61, 0xC3] 0 = Inr (Some [0x61, 0xFFFD], 7)
   \<and> readIntBE 4 [0x00, 0x00, 0x00, 0x05, 0x61, 0x62] 0 = Inr 5
   \<and> decodeBytes [0x00, 0x00, 0x00, 0x05, 0x61, 0x62] 0 = Inr (Some [0x61, 0x62], 9)"
  by code_simp

subsection \<open>The request header\<close>


lemma readIntBE_at':
  "length pre = nat off \<Longrightarrow> 0 \<le> off \<Longrightarrow> 0 < w \<Longrightarrow>
   - (2 ^ (8 * w - 1)) \<le> v \<Longrightarrow> v < 2 ^ (8 * w - 1) \<Longrightarrow>
     readIntBE w (pre @ be_bytes w v @ suf) off = Inr v"
  using rt_signed(2) [of w v pre suf] by simp





lemma blit_Nil: "blit [] b off = b"
  by (simp add: blit_def)







text \<open>
  A clientId that is one high surrogate, U+D800, is not null and not empty, and comes back
  as U+FFFD.
\<close>

theorem request_header_clientId_collapse_counterexample:
  "RequestHeader_encode \<lparr>hdr_apiKey = 18, hdr_apiVersion = 0, hdr_correlationId = 7,
       hdr_clientId = Some [0xD800]\<rparr>
     = Inr [0, 18, 0, 0, 0, 0, 0, 7, 0x00, 0x03, 0xEF, 0xBF, 0xBD]
   \<and> RequestHeader_decode [0, 18, 0, 0, 0, 0, 0, 7, 0x00, 0x03, 0xEF, 0xBF, 0xBD]
     = Inr \<lparr>hdr_apiKey = 18, hdr_apiVersion = 0, hdr_correlationId = 7, hdr_clientId = Some [0xFFFD]\<rparr>
   \<and> [0xFFFD] \<noteq> ([0xD800] :: jsstring)"
  by code_simp

section \<open>MetadataResponse.ts and ClusterMetadata.ts: the cache of the cluster's topology\<close>

record Broker =
  nodeId :: int
  host :: string
  port :: int
  rack :: "string option"

record PartitionMetadata =
  partErrorCode :: int
  partitionIndex :: int
  leaderId :: int
  leaderEpoch :: int
  replicaNodes :: "int list"
  isrNodes :: "int list"
  offlineReplicas :: "int list"

record TopicMetadata =
  errorCode :: int
  name :: string
  isInternal :: bool
  partitions :: "PartitionMetadata list"
  topicAuthorizedOperations :: int

text \<open>
  The two \<open>Map\<close>s of the class are maps; the order in which a \<open>Map\<close> lists its entries is
  not modelled, no function below depends on it.
\<close>

record ClusterMetadata =
  topics :: "string \<rightharpoonup> TopicMetadata"
  brokers :: "int \<rightharpoonup> Broker"
  clusterId :: "string option"
  controllerId :: int
  isMetadataInitialized :: bool

definition new_ClusterMetadata :: ClusterMetadata where
  "new_ClusterMetadata =
     \<lparr>topics = Map.empty, brokers = Map.empty, clusterId = None, controllerId = - 1,
      isMetadataInitialized = False\<rparr>"

definition findLeader :: "ClusterMetadata \<Rightarrow> string \<Rightarrow> int \<Rightarrow> error + int" where
  "findLeader c topic partition' =
     (case topics c topic of
        None \<Rightarrow> Inl (KafkaError (TopicNotFoundInMetadata topic))
      | Some topicMetadata \<Rightarrow>
          (case find (\<lambda>p. partitionIndex p = partition') (partitions topicMetadata) of
             None \<Rightarrow> Inl (KafkaError (PartitionNotFoundForTopic partition' topic))
           | Some partitionMetadata \<Rightarrow>
               if leaderId partitionMetadata < 0
               then Inl (LeaderNotAvailableError (NoLeaderForTopicPartition topic partition'))
               else Inr (leaderId partitionMetadata)))"

definition getPartitionsForTopic :: "ClusterMetadata \<Rightarrow> string \<Rightarrow> PartitionMetadata list" where
  "getPartitionsForTopic c topic =
     (case topics c topic of None \<Rightarrow> [] | Some topicMetadata \<Rightarrow> partitions topicMetadata)"

subsection \<open>The default sort of an array of numbers\<close>

text \<open>
  \<open>[...a].sort()\<close> with no comparator orders the elements by their string forms, compared
  code unit by code unit: 10 comes before 9.
\<close>

definition digit_char :: "nat \<Rightarrow> char" where
  "digit_char d = char_of (48 + d)"

function digits :: "nat \<Rightarrow> string" where
  "digits n = (if n < 10 then [digit_char n] else digits (n div 10) @ [digit_char (n mod 10)])"
  by pat_completeness auto
termination
  by (relation "measure id") auto

definition js_toString :: "int \<Rightarrow> string" where
  "js_toString i = (if i < 0 then CHR ''-'' # digits (nat (- i)) else digits (nat i))"

definition js_sort :: "int list \<Rightarrow> int list" where
  "js_sort xs = sort_key js_toString xs"

subsection \<open>Change detection\<close>

function hasArrayChanged_loop :: "int list \<Rightarrow> int list \<Rightarrow> nat \<Rightarrow> bool" where
  "hasArrayChanged_loop sortedA sortedB i =
     (if i < length sortedA
      then (if sortedA ! i \<noteq> sortedB ! i then True
            else hasArrayChanged_loop sortedA sortedB (i + 1))
      else False)"
  by pat_completeness auto
termination
  by (relation "measure (\<lambda>(a, b, i). length a - i)") auto

definition hasArrayChanged :: "int list \<Rightarrow> int list \<Rightarrow> bool" where
  "hasArrayChanged a b =
     (if length a \<noteq> length b then True
      else hasArrayChanged_loop (js_sort a) (js_sort b) 0)"

definition existingMap_of :: "PartitionMetadata list \<Rightarrow> (int \<rightharpoonup> PartitionMetadata)" where
  "existingMap_of existing = fold (\<lambda>p m. m(partitionIndex p \<mapsto> p)) existing Map.empty"

fun hasPartitionChanges_loop :: "(int \<rightharpoonup> PartitionMetadata) \<Rightarrow> PartitionMetadata list \<Rightarrow> bool" where
  "hasPartitionChanges_loop existingMap [] = False"
| "hasPartitionChanges_loop existingMap (partition' # rest) =
     (case existingMap (partitionIndex partition') of
        None \<Rightarrow> True
      | Some existingPartition \<Rightarrow>
          if leaderId existingPartition \<noteq> leaderId partition'
             \<or> leaderEpoch existingPartition \<noteq> leaderEpoch partition' then True
          else if hasArrayChanged (replicaNodes existingPartition) (replicaNodes partition') then True
          else if hasArrayChanged (isrNodes existingPartition) (isrNodes partition') then True
          else if hasArrayChanged (offlineReplicas existingPartition) (offlineReplicas partition') then True
          else hasPartitionChanges_loop existingMap rest)"

definition hasPartitionChanges :: "PartitionMetadata list \<Rightarrow> PartitionMetadata list \<Rightarrow> bool" where
  "hasPartitionChanges existing updated =
     (if length existing \<noteq> length updated then True
      else hasPartitionChanges_loop (existingMap_of existing) updated)"

text \<open>
  The loop of \<open>updateMetadata\<close> over the topics of the response; its state is the topic
  map and the list \<open>updatedTopics\<close>.
\<close>

fun updateTopics ::
  "TopicMetadata list \<Rightarrow> (string \<rightharpoonup> TopicMetadata) \<times> string list
     \<Rightarrow> (string \<rightharpoonup> TopicMetadata) \<times> string list" where
  "updateTopics [] st = st"
| "updateTopics (topic # rest) (tmap, updatedTopics) =
     (if errorCode topic \<noteq> 0 then updateTopics rest (tmap, updatedTopics)
      else
        (let existingTopic = tmap (name topic);
             updatedTopics =
               (if existingTopic = None
                   \<or> length (partitions (the existingTopic)) \<noteq> length (partitions topic)
                   \<or> hasPartitionChanges (partitions (the existingTopic)) (partitions topic)
                then updatedTopics @ [name topic] else updatedTopics)
         in updateTopics rest (tmap(name topic \<mapsto> topic), updatedTopics)))"

text \<open>
  \<open>updateMetadata\<close> returns the cache with the argument of the \<open>update\<close> event it emits,
  \<open>None\<close> when it emits none.
\<close>

definition updateMetadata ::
  "ClusterMetadata \<Rightarrow> Broker list \<Rightarrow> TopicMetadata list \<Rightarrow> string option \<Rightarrow> int
     \<Rightarrow> ClusterMetadata \<times> string list option" where
  "updateMetadata c brokerList topicList cid ctl =
     (let brokerMap = fold (\<lambda>broker m. m(nodeId broker \<mapsto> broker)) brokerList Map.empty;
          (topicMap, updatedTopics) = updateTopics topicList (topics c, []);
          wasInitialized = isMetadataInitialized c;
          c' = c\<lparr>topics := topicMap, brokers := brokerMap, clusterId := cid, controllerId := ctl,
                 isMetadataInitialized := True\<rparr>
      in (c', if updatedTopics \<noteq> [] \<or> \<not> wasInitialized then Some updatedTopics else None))"

subsection \<open>The sort and the comparison of arrays\<close>

text \<open>The change detection as the specification words it.\<close>

definition spec_partition_differs :: "PartitionMetadata \<Rightarrow> PartitionMetadata \<Rightarrow> bool" where
  "spec_partition_differs old new \<longleftrightarrow>
     leaderId old \<noteq> leaderId new \<or> leaderEpoch old \<noteq> leaderEpoch new
     \<or> mset (replicaNodes old) \<noteq> mset (replicaNodes new)
     \<or> mset (isrNodes old) \<noteq> mset (isrNodes new)
     \<or> mset (offlineReplicas old) \<noteq> mset (offlineReplicas new)"

definition spec_topic_changed :: "TopicMetadata option \<Rightarrow> TopicMetadata \<Rightarrow> bool" where
  "spec_topic_changed previous new \<longleftrightarrow>
     (case previous of
        None \<Rightarrow> True
      | Some old \<Rightarrow>
          length (partitions old) \<noteq> length (partitions new)
          \<or> (\<exists>p \<in> set (partitions new).
                case find (\<lambda>q. partitionIndex q = partitionIndex p) (partitions old) of
                  None \<Rightarrow> True
                | Some q \<Rightarrow> spec_partition_differs q p))"

declare digits.simps [simp del] hasArrayChanged_loop.simps [simp del]

lemma digits_nonempty: "digits n \<noteq> []"
  by (subst digits.simps) simp

lemma digit_char_inj: "a < 10 \<Longrightarrow> b < 10 \<Longrightarrow> digit_char a = digit_char b \<Longrightarrow> a = b"
proof -
  assume a: "a < 10" and b: "b < 10" and e: "digit_char a = digit_char b"
  have "of_char (digit_char a) = (48 + a) mod 256" "of_char (digit_char b) = (48 + b) mod 256"
    by (simp_all add: digit_char_def)
  with e have "(48 + a) mod 256 = (48 + b) mod 256" by simp
  with a b show ?thesis by simp
qed

lemma digits_inj: "digits n = digits m \<Longrightarrow> n = m"
proof (induction n arbitrary: m rule: digits.induct)
  case (1 n)
  show ?case
  proof (cases "n < 10")
    case True
    then have n: "digits n = [digit_char n]" by (subst digits.simps) simp
    have "m < 10"
    proof (rule ccontr)
      assume "\<not> m < 10"
      then have "digits m = digits (m div 10) @ [digit_char (m mod 10)]"
        by (subst digits.simps) simp
      with n 1(2) digits_nonempty [of "m div 10"] show False by simp
    qed
    then have "digits m = [digit_char m]" by (subst digits.simps) simp
    with n 1(2) True \<open>m < 10\<close> show ?thesis by (auto dest: digit_char_inj)
  next
    case False
    then have n: "digits n = digits (n div 10) @ [digit_char (n mod 10)]"
      by (subst digits.simps) simp
    have "\<not> m < 10"
    proof
      assume "m < 10"
      then have "digits m = [digit_char m]" by (subst digits.simps) simp
      with n 1(2) digits_nonempty [of "n div 10"] show False by simp
    qed
    then have m: "digits m = digits (m div 10) @ [digit_char (m mod 10)]"
      by (subst digits.simps) simp
    from n m 1(2) have dd: "digits (n div 10) = digits (m div 10)"
      and dc: "digit_char (n mod 10) = digit_char (m mod 10)" by simp_all
    have q: "n div 10 = m div 10" by (rule 1(1) [OF False dd])
    have r: "n mod 10 = m mod 10" by (rule digit_char_inj [OF _ _ dc]) simp_all
    from q r show ?thesis by (metis div_mult_mod_eq)
  qed
qed

lemma digits_no_minus: "CHR ''-'' \<notin> set (digits n)"
proof (induction n rule: digits.induct)
  case (1 n)
  have d: "digit_char k \<noteq> CHR ''-''" if "k < 10" for k
  proof
    assume "digit_char k = CHR ''-''"
    then have "of_char (digit_char k) = (of_char (CHR ''-'') :: nat)" by simp
    with that show False by (simp add: digit_char_def)
  qed
  show ?case
  proof (cases "n < 10")
    case True
    then show ?thesis using d [of n] by (subst digits.simps) auto
  next
    case False
    then show ?thesis using 1 d [of "n mod 10"] by (subst digits.simps) auto
  qed
qed

lemma hd_digits: "hd (digits n) \<noteq> CHR ''-''"
  using digits_no_minus [of n] digits_nonempty [of n] by (cases "digits n") auto

lemma js_toString_inj: "inj js_toString"
proof (rule injI)
  fix a b assume e: "js_toString a = js_toString b"
  show "a = b"
  proof (cases "a < 0"; cases "b < 0")
    assume "a < 0" "b < 0"
    with e have "nat (- a) = nat (- b)" by (auto simp: js_toString_def dest: digits_inj)
    with \<open>a < 0\<close> \<open>b < 0\<close> show ?thesis by simp
  next
    assume "a < 0" "\<not> b < 0"
    with e have "digits (nat b) = CHR ''-'' # digits (nat (- a))"
      by (simp add: js_toString_def)
    then have "hd (digits (nat b)) = CHR ''-''" by simp
    with hd_digits [of "nat b"] show ?thesis by simp
  next
    assume "\<not> a < 0" "b < 0"
    with e have "digits (nat a) = CHR ''-'' # digits (nat (- b))"
      by (simp add: js_toString_def)
    then have "hd (digits (nat a)) = CHR ''-''" by simp
    with hd_digits [of "nat a"] show ?thesis by simp
  next
    assume "\<not> a < 0" "\<not> b < 0"
    with e have "nat a = nat b" by (auto simp: js_toString_def dest: digits_inj)
    with \<open>\<not> a < 0\<close> \<open>\<not> b < 0\<close> show ?thesis by simp
  qed
qed

lemma sort_key_inj_eq:
  assumes "inj f" "mset xs = mset ys"
  shows "sort_key f xs = sort_key f ys"
proof (rule properties_for_sort_key)
  show "mset (sort_key f ys) = mset xs" using assms(2) by simp
  show "sorted (map f (sort_key f ys))" by simp
  fix k assume "k \<in> set (sort_key f ys)"
  have eq: "(\<lambda>x. f k = f x) = (\<lambda>x. k = x)"
    using assms(1) by (auto simp: inj_def)
  have "filter (\<lambda>x. k = x) zs = replicate (count (mset zs) k) k" for zs :: "'a list"
    by (induction zs) auto
  then show "filter (\<lambda>x. f k = f x) (sort_key f ys) = filter (\<lambda>x. f k = f x) xs"
    using assms(2) by (simp add: eq)
qed

lemma js_sort_eq_iff: "js_sort a = js_sort b \<longleftrightarrow> mset a = mset b"
proof
  assume "js_sort a = js_sort b"
  then have "mset (js_sort a) = mset (js_sort b)" by simp
  then show "mset a = mset b" by (simp add: js_sort_def)
next
  assume "mset a = mset b"
  then show "js_sort a = js_sort b"
    unfolding js_sort_def by (rule sort_key_inj_eq [OF js_toString_inj])
qed

lemma hasArrayChanged_loop_iff:
  "length sa = length sb \<Longrightarrow>
     hasArrayChanged_loop sa sb i \<longleftrightarrow> (\<exists>j. i \<le> j \<and> j < length sa \<and> sa ! j \<noteq> sb ! j)"
proof (induction sa sb i rule: hasArrayChanged_loop.induct)
  case (1 sa sb i)
  show ?case
  proof (cases "i < length sa")
    case False
    then show ?thesis by (subst hasArrayChanged_loop.simps) auto
  next
    case True
    show ?thesis
    proof (cases "sa ! i \<noteq> sb ! i")
      case True
      with \<open>i < length sa\<close> show ?thesis by (subst hasArrayChanged_loop.simps) auto
    next
      case False
      then have "hasArrayChanged_loop sa sb i = hasArrayChanged_loop sa sb (i + 1)"
        using True by (subst hasArrayChanged_loop.simps) simp
      also have "\<dots> \<longleftrightarrow> (\<exists>j. i + 1 \<le> j \<and> j < length sa \<and> sa ! j \<noteq> sb ! j)"
        using 1 True False by simp
      also have "\<dots> \<longleftrightarrow> (\<exists>j. i \<le> j \<and> j < length sa \<and> sa ! j \<noteq> sb ! j)"
        using False by (metis Suc_eq_plus1 Suc_leD Suc_leI le_neq_implies_less)
      finally show ?thesis .
    qed
  qed
qed

lemma hasArrayChanged_iff: "hasArrayChanged a b \<longleftrightarrow> mset a \<noteq> mset b"
proof (cases "length a = length b")
  case False
  then have "mset a \<noteq> mset b" by (metis size_mset)
  with False show ?thesis by (simp add: hasArrayChanged_def)
next
  case True
  then have l: "length (js_sort a) = length (js_sort b)" by (simp add: js_sort_def)
  have "hasArrayChanged a b \<longleftrightarrow> js_sort a \<noteq> js_sort b"
    using True hasArrayChanged_loop_iff [OF l, of 0] l
    by (auto simp: hasArrayChanged_def list_eq_iff_nth_eq)
  then show ?thesis by (simp add: js_sort_eq_iff)
qed

subsection \<open>The loops of the update\<close>

lemma find_distinct_Some:
  "distinct (map f ps) \<Longrightarrow> find (\<lambda>q. f q = i) ps = Some q \<longleftrightarrow> q \<in> set ps \<and> f q = i"
  by (induction ps) (auto simp: image_iff)

lemma find_rev_distinct:
  assumes "distinct (map f ps)"
  shows "find (\<lambda>q. f q = i) (rev ps) = find (\<lambda>q. f q = i) ps"
proof (cases "find (\<lambda>q. f q = i) ps")
  case None
  then have "find (\<lambda>q. f q = i) (rev ps) = None" by (simp add: find_None_iff)
  with None show ?thesis by simp
next
  case (Some q)
  have d: "distinct (map f (rev ps))" using assms by (simp add: rev_map [symmetric])
  from Some have "q \<in> set (rev ps) \<and> f q = i"
    using find_distinct_Some [OF assms, of i q] by simp
  then have "find (\<lambda>q. f q = i) (rev ps) = Some q"
    using find_distinct_Some [OF d, of i q] by simp
  with Some show ?thesis by simp
qed

lemma find_append:
  "find P (xs @ ys) = (case find P xs of None \<Rightarrow> find P ys | Some x \<Rightarrow> Some x)"
  by (induction xs) auto

lemma fold_upd_find:
  "fold (\<lambda>p m. m(f p \<mapsto> p)) ps m0 i
     = (case find (\<lambda>q. f q = i) (rev ps) of Some q \<Rightarrow> Some q | None \<Rightarrow> m0 i)"
  by (induction ps arbitrary: m0) (auto simp: find_append split: option.splits)

lemma existingMap_of_find:
  "distinct (map partitionIndex existing) \<Longrightarrow>
     existingMap_of existing i = find (\<lambda>q. partitionIndex q = i) existing"
  by (simp add: existingMap_of_def fold_upd_find find_rev_distinct split: option.splits)

lemma hasPartitionChanges_loop_iff:
  "hasPartitionChanges_loop m ps \<longleftrightarrow>
     (\<exists>p \<in> set ps. case m (partitionIndex p) of None \<Rightarrow> True | Some q \<Rightarrow> spec_partition_differs q p)"
  by (induction ps)
     (auto simp: hasArrayChanged_iff spec_partition_differs_def split: option.splits)

definition code_changed :: "(string \<rightharpoonup> TopicMetadata) \<Rightarrow> TopicMetadata \<Rightarrow> bool" where
  "code_changed tmap topic \<longleftrightarrow>
     tmap (name topic) = None
     \<or> length (partitions (the (tmap (name topic)))) \<noteq> length (partitions topic)
     \<or> hasPartitionChanges (partitions (the (tmap (name topic)))) (partitions topic)"

lemma code_changed_spec:
  assumes "\<And>old. tmap (name t) = Some old \<Longrightarrow> distinct (map partitionIndex (partitions old))"
  shows "code_changed tmap t \<longleftrightarrow> spec_topic_changed (tmap (name t)) t"
proof (cases "tmap (name t)")
  case None
  then show ?thesis by (simp add: code_changed_def spec_topic_changed_def)
next
  case (Some old)
  have "existingMap_of (partitions old) i = find (\<lambda>q. partitionIndex q = i) (partitions old)" for i
    by (rule existingMap_of_find [OF assms [OF Some]])
  then show ?thesis
    using Some
    by (auto simp: code_changed_def spec_topic_changed_def hasPartitionChanges_def
        hasPartitionChanges_loop_iff)
qed

lemma code_changed_upd:
  "name u \<noteq> n \<Longrightarrow> code_changed (tmap(n \<mapsto> t)) u = code_changed tmap u"
  by (simp add: code_changed_def)

lemma updateTopics_snd:
  "distinct (map name ts) \<Longrightarrow>
     snd (updateTopics ts (tmap, upd))
       = upd @ map name (filter (\<lambda>t. errorCode t = 0 \<and> code_changed tmap t) ts)"
proof (induction ts arbitrary: tmap upd)
  case Nil
  then show ?case by simp
next
  case (Cons t ts)
  have d: "distinct (map name ts)" and notin: "name t \<notin> set (map name ts)"
    using Cons.prems by simp_all
  have nt: "name u \<noteq> name t" if "u \<in> set ts" for u
  proof
    assume "name u = name t"
    moreover from that have "name u \<in> set (map name ts)" by simp
    ultimately show False using notin by simp
  qed
  have same: "filter (\<lambda>u. errorCode u = 0 \<and> code_changed (tmap(name t \<mapsto> t)) u) ts
               = filter (\<lambda>u. errorCode u = 0 \<and> code_changed tmap u) ts"
    by (rule filter_cong) (auto simp: code_changed_upd nt)
  show ?case
  proof (cases "errorCode t = 0")
    case False
    then show ?thesis using Cons.IH [OF d] by simp
  next
    case True
    let ?upd' = "if code_changed tmap t then upd @ [name t] else upd"
    have step: "updateTopics (t # ts) (tmap, upd) = updateTopics ts (tmap(name t \<mapsto> t), ?upd')"
      using True by (simp add: Let_def code_changed_def)
    have IH': "snd (updateTopics ts (tmap(name t \<mapsto> t), ?upd'))
                = ?upd' @ map name (filter (\<lambda>u. errorCode u = 0 \<and> code_changed (tmap(name t \<mapsto> t)) u) ts)"
      by (rule Cons.IH [OF d])
    show ?thesis
      unfolding step IH' same using True by simp
  qed
qed

lemma updateTopics_fst:
  "fst (updateTopics ts (tmap, upd)) n
     = (case find (\<lambda>t. name t = n \<and> errorCode t = 0) (rev ts) of
          Some t \<Rightarrow> Some t | None \<Rightarrow> tmap n)"
proof (induction ts arbitrary: tmap upd)
  case Nil
  then show ?case by simp
next
  case (Cons t ts)
  show ?case
  proof (cases "errorCode t = 0")
    case False
    then show ?thesis
      using Cons.IH [of tmap upd] by (simp add: find_append split: option.splits)
  next
    case True
    then obtain upd' where
      step: "updateTopics (t # ts) (tmap, upd) = updateTopics ts (tmap(name t \<mapsto> t), upd')"
      by (simp add: Let_def)
    have IH': "fst (updateTopics ts (tmap(name t \<mapsto> t), upd')) n
                = (case find (\<lambda>t. name t = n \<and> errorCode t = 0) (rev ts) of
                     Some u \<Rightarrow> Some u | None \<Rightarrow> (tmap(name t \<mapsto> t)) n)"
      by (rule Cons.IH)
    have f: "find (\<lambda>t. name t = n \<and> errorCode t = 0) (rev (t # ts))
              = (case find (\<lambda>t. name t = n \<and> errorCode t = 0) (rev ts) of
                   None \<Rightarrow> (if name t = n then Some t else None) | Some x \<Rightarrow> Some x)"
      using True by (auto simp: find_append split: option.splits)
    show ?thesis
      unfolding step IH' f by (auto split: option.splits)
  qed
qed

definition same_partition_up_to_order :: "PartitionMetadata \<Rightarrow> PartitionMetadata \<Rightarrow> bool" where
  "same_partition_up_to_order p p' \<longleftrightarrow>
     partitionIndex p = partitionIndex p' \<and> leaderId p = leaderId p'
     \<and> leaderEpoch p = leaderEpoch p'
     \<and> mset (replicaNodes p) = mset (replicaNodes p')
     \<and> mset (isrNodes p) = mset (isrNodes p')
     \<and> mset (offlineReplicas p) = mset (offlineReplicas p')"

definition same_topic_up_to_order :: "TopicMetadata \<Rightarrow> TopicMetadata \<Rightarrow> bool" where
  "same_topic_up_to_order t t' \<longleftrightarrow>
     name t = name t' \<and> errorCode t = errorCode t'
     \<and> list_all2 same_partition_up_to_order (partitions t) (partitions t')"

lemma list_all2_set2: "list_all2 R xs ys \<Longrightarrow> y \<in> set ys \<Longrightarrow> \<exists>x \<in> set xs. R x y"
  by (induction rule: list_all2_induct) auto

lemma fold_upd_map_of:
  "fold (\<lambda>b m. m(f b \<mapsto> b)) bs m0 = m0 ++ map_of (rev (map (\<lambda>b. (f b, b)) bs))"
  by (induction bs arbitrary: m0) (simp_all add: map_add_upd_left)

lemma updateMetadata_fst:
  "fst (updateMetadata c bs ts cid ctl)
     = c\<lparr>topics := fst (updateTopics ts (topics c, [])),
          brokers := fold (\<lambda>broker m. m(nodeId broker \<mapsto> broker)) bs Map.empty,
          clusterId := cid, controllerId := ctl, isMetadataInitialized := True\<rparr>"
  by (simp add: updateMetadata_def Let_def split: prod.splits)

lemma updateMetadata_snd:
  "snd (updateMetadata c bs ts cid ctl)
     = (if snd (updateTopics ts (topics c, [])) \<noteq> [] \<or> \<not> isMetadataInitialized c
        then Some (snd (updateTopics ts (topics c, []))) else None)"
  by (simp add: updateMetadata_def Let_def split: prod.splits)

lemma find_SomeD: "find P xs = Some x \<Longrightarrow> x \<in> set xs \<and> P x"
  by (induction xs) (auto split: if_splits)

lemma find_last_distinct:
  assumes "distinct (map name ts)" "t \<in> set ts" "errorCode t = 0"
  shows "find (\<lambda>u. name u = name t \<and> errorCode u = 0) (rev ts) = Some t"
proof -
  have "\<exists>u. find (\<lambda>u. name u = name t \<and> errorCode u = 0) (rev ts) = Some u"
    using assms(2,3) by (cases "find (\<lambda>u. name u = name t \<and> errorCode u = 0) (rev ts)")
      (auto simp: find_None_iff)
  then obtain u where u: "find (\<lambda>u. name u = name t \<and> errorCode u = 0) (rev ts) = Some u" ..
  then have "u \<in> set ts" "name u = name t"
    by (auto dest: find_SomeD)
  then have "u = t"
    using assms(1,2) by (meson distinct_map inj_onD)
  with u show ?thesis by simp
qed

lemma updated_characterised:
  assumes "distinct (map name ts)"
    and "\<And>t old. t \<in> set ts \<Longrightarrow> topics c (name t) = Some old
           \<Longrightarrow> distinct (map partitionIndex (partitions old))"
  shows "snd (updateTopics ts (topics c, []))
           = map name (filter (\<lambda>t. errorCode t = 0 \<and> spec_topic_changed (topics c (name t)) t) ts)"
proof -
  have "filter (\<lambda>t. errorCode t = 0 \<and> code_changed (topics c) t) ts
          = filter (\<lambda>t. errorCode t = 0 \<and> spec_topic_changed (topics c (name t)) t) ts"
    by (rule filter_cong) (auto simp: code_changed_spec assms(2))
  then show ?thesis by (simp add: updateTopics_snd [OF assms(1)])
qed

lemma reordered_unchanged:
  assumes dn: "distinct (map name ts)"
    and dp: "\<And>t. t \<in> set ts \<Longrightarrow> distinct (map partitionIndex (partitions t))"
    and same: "list_all2 same_topic_up_to_order ts ts'"
  shows "snd (updateTopics ts' (fst (updateTopics ts (tmap, upd)), [])) = []"
proof -
  let ?tmap1 = "fst (updateTopics ts (tmap, upd))"
  have names: "map name ts' = map name ts"
    using same by (induction rule: list_all2_induct) (auto simp: same_topic_up_to_order_def)
  then have dn': "distinct (map name ts')" using dn by simp
  have "\<not> code_changed ?tmap1 t'" if t': "t' \<in> set ts'" and e: "errorCode t' = 0" for t'
  proof -
    from list_all2_set2 [OF same t'] obtain t where t: "t \<in> set ts" "same_topic_up_to_order t t'"
      by blast
    then have nm: "name t' = name t" and et: "errorCode t = 0"
      and ps: "list_all2 same_partition_up_to_order (partitions t) (partitions t')"
      using e by (auto simp: same_topic_up_to_order_def)
    have old: "?tmap1 (name t') = Some t"
      unfolding nm updateTopics_fst using find_last_distinct [OF dn t(1) et] by simp
    have dt: "distinct (map partitionIndex (partitions t))" by (rule dp [OF t(1)])
    have "\<not> spec_topic_changed (Some t) t'"
    proof -
      have len: "length (partitions t) = length (partitions t')"
        using ps by (rule list_all2_lengthD)
      have "(case find (\<lambda>q. partitionIndex q = partitionIndex p') (partitions t) of
               None \<Rightarrow> True | Some q \<Rightarrow> spec_partition_differs q p') = False"
        if "p' \<in> set (partitions t')" for p'
      proof -
        from list_all2_set2 [OF ps that] obtain p where
          p: "p \<in> set (partitions t)" "same_partition_up_to_order p p'" by blast
        then have "find (\<lambda>q. partitionIndex q = partitionIndex p') (partitions t) = Some p"
          using find_distinct_Some [OF dt, of "partitionIndex p'" p]
          by (simp add: same_partition_up_to_order_def)
        with p(2) show ?thesis
          by (simp add: same_partition_up_to_order_def spec_partition_differs_def)
      qed
      with len show ?thesis by (simp add: spec_topic_changed_def)
    qed
    moreover have "code_changed ?tmap1 t' \<longleftrightarrow> spec_topic_changed (?tmap1 (name t')) t'"
      by (rule code_changed_spec) (use old dt in simp)
    ultimately show ?thesis by (simp add: old)
  qed
  then have "filter (\<lambda>t. errorCode t = 0 \<and> code_changed ?tmap1 t) ts' = []"
    by (auto simp: filter_empty_conv)
  then show ?thesis by (simp add: updateTopics_snd [OF dn'])
qed

lemma leader_change_reported:
  assumes "distinct (map name ts)" "t \<in> set ts" "errorCode t = 0"
    and "topics c (name t) = Some old" "distinct (map partitionIndex (partitions old))"
    and "p \<in> set (partitions t)" "q \<in> set (partitions old)"
    and "partitionIndex q = partitionIndex p" "leaderId q \<noteq> leaderId p"
  shows "name t \<in> set (snd (updateTopics ts (topics c, [])))"
proof -
  have f: "find (\<lambda>q. partitionIndex q = partitionIndex p) (partitions old) = Some q"
    using find_distinct_Some [OF assms(5), of "partitionIndex p" q] assms(7,8) by simp
  have "spec_topic_changed (topics c (name t)) t"
    unfolding assms(4) spec_topic_changed_def
    using assms(6,9) f by (auto simp: spec_partition_differs_def intro!: bexI [of _ p])
  moreover have "code_changed (topics c) t \<longleftrightarrow> spec_topic_changed (topics c (name t)) t"
    by (rule code_changed_spec) (use assms(4,5) in simp)
  ultimately show ?thesis
    using assms(2,3) by (simp add: updateTopics_snd [OF assms(1)])
qed

subsection \<open>Leader lookup, merge and change detection\<close>

definition ex_partition :: "int \<Rightarrow> int \<Rightarrow> int list \<Rightarrow> int list \<Rightarrow> PartitionMetadata" where
  "ex_partition idx leader replicas isr =
     \<lparr>partErrorCode = 0, partitionIndex = idx, leaderId = leader, leaderEpoch = 5,
      replicaNodes = replicas, isrNodes = isr, offlineReplicas = []\<rparr>"

definition ex_topic :: "int \<Rightarrow> string \<Rightarrow> PartitionMetadata list \<Rightarrow> TopicMetadata" where
  "ex_topic err n ps =
     \<lparr>errorCode = err, name = n, isInternal = False, partitions = ps,
      topicAuthorizedOperations = 0\<rparr>"

definition ex_broker :: "int \<Rightarrow> Broker" where
  "ex_broker n = \<lparr>nodeId = n, host = ''localhost'', port = 9092 + n, rack = None\<rparr>"

definition ex_cache :: "TopicMetadata \<Rightarrow> ClusterMetadata" where
  "ex_cache t =
     \<lparr>topics = [name t \<mapsto> t], brokers = Map.empty, clusterId = None, controllerId = 1,
      isMetadataInitialized = True\<rparr>"

lemma ex_partition_sel [simp]:
  "partitionIndex (ex_partition idx leader replicas isr) = idx"
  "leaderId (ex_partition idx leader replicas isr) = leader"
  "leaderEpoch (ex_partition idx leader replicas isr) = 5"
  "replicaNodes (ex_partition idx leader replicas isr) = replicas"
  "isrNodes (ex_partition idx leader replicas isr) = isr"
  "offlineReplicas (ex_partition idx leader replicas isr) = []"
  by (simp_all add: ex_partition_def)

lemma ex_topic_sel [simp]:
  "errorCode (ex_topic err n ps) = err"
  "name (ex_topic err n ps) = n"
  "partitions (ex_topic err n ps) = ps"
  by (simp_all add: ex_topic_def)

lemma ex_cache_sel [simp]:
  "topics (ex_cache t) = [name t \<mapsto> t]"
  "isMetadataInitialized (ex_cache t) = True"
  by (simp_all add: ex_cache_def)

text \<open>
  Claim C8. \<open>findLeader\<close> fails with the topic-not-found \<open>KafkaError\<close> for a topic that is
  not in the cache, with the partition-not-found \<open>KafkaError\<close> when the topic has no
  partition of that index, with \<open>LeaderNotAvailableError\<close> when the partition's leaderId
  is negative, and returns the leaderId otherwise; \<open>getPartitionsForTopic\<close> returns the
  empty list for an unknown topic.
\<close>

theorem findLeader_results:
  "(topics c topic = None \<longrightarrow>
      findLeader c topic idx = Inl (KafkaError (TopicNotFoundInMetadata topic))
      \<and> getPartitionsForTopic c topic = [])
 \<and> (topics c topic = Some tm \<and> (\<forall>q \<in> set (partitions tm). partitionIndex q \<noteq> idx) \<longrightarrow>
      findLeader c topic idx = Inl (KafkaError (PartitionNotFoundForTopic idx topic)))
 \<and> (topics c topic = Some tm \<and> find (\<lambda>q. partitionIndex q = idx) (partitions tm) = Some pm
      \<and> leaderId pm < 0 \<longrightarrow>
      findLeader c topic idx = Inl (LeaderNotAvailableError (NoLeaderForTopicPartition topic idx)))
 \<and> (topics c topic = Some tm \<and> find (\<lambda>q. partitionIndex q = idx) (partitions tm) = Some pm
      \<and> 0 \<le> leaderId pm \<longrightarrow>
      findLeader c topic idx = Inr (leaderId pm))
 \<and> (topics c topic = Some tm \<longrightarrow> getPartitionsForTopic c topic = partitions tm)"
  by (auto simp: findLeader_def getPartitionsForTopic_def find_None_iff split: option.splits
      dest: find_SomeD)

theorem findLeader_results_witness:
  "findLeader (ex_cache (ex_topic 0 ''orders'' [ex_partition 0 1 [1] [1], ex_partition 1 (- 1) [2] []]))
       ''payments'' 0 = Inl (KafkaError (TopicNotFoundInMetadata ''payments''))
 \<and> getPartitionsForTopic
       (ex_cache (ex_topic 0 ''orders'' [ex_partition 0 1 [1] [1], ex_partition 1 (- 1) [2] []]))
       ''payments'' = []
 \<and> findLeader (ex_cache (ex_topic 0 ''orders'' [ex_partition 0 1 [1] [1], ex_partition 1 (- 1) [2] []]))
       ''orders'' 7 = Inl (KafkaError (PartitionNotFoundForTopic 7 ''orders''))
 \<and> findLeader (ex_cache (ex_topic 0 ''orders'' [ex_partition 0 1 [1] [1], ex_partition 1 (- 1) [2] []]))
       ''orders'' 1 = Inl (LeaderNotAvailableError (NoLeaderForTopicPartition ''orders'' 1))
 \<and> findLeader (ex_cache (ex_topic 0 ''orders'' [ex_partition 0 1 [1] [1], ex_partition 1 (- 1) [2] []]))
       ''orders'' 0 = Inr 1"
proof -
  let ?t = "ex_topic 0 ''orders'' [ex_partition 0 1 [1] [1], ex_partition 1 (- 1) [2] []]"
  let ?c = "ex_cache ?t"
  show ?thesis
    using findLeader_results [of ?c "''payments''" 0 ?t "ex_partition 0 1 [1] [1]"]
      findLeader_results [of ?c "''orders''" 7 ?t "ex_partition 0 1 [1] [1]"]
      findLeader_results [of ?c "''orders''" 1 ?t "ex_partition 1 (- 1) [2] []"]
      findLeader_results [of ?c "''orders''" 0 ?t "ex_partition 0 1 [1] [1]"]
    by simp
qed

text \<open>
  Claim C7. A topology update replaces the broker map with the brokers of the response,
  whatever the map held before; the entry of a topic name is the last topic of the
  response with that name and error code zero, and the entry the cache had before when
  the response has none, so a topic that comes with a non-zero error code is skipped and
  its stored entry stays.
\<close>

theorem metadata_merge:
  "brokers (fst (updateMetadata c bs ts cid ctl)) = map_of (rev (map (\<lambda>b. (nodeId b, b)) bs))
 \<and> (\<forall>n. topics (fst (updateMetadata c bs ts cid ctl)) n
          = (case find (\<lambda>t. name t = n \<and> errorCode t = 0) (rev ts) of
               Some t \<Rightarrow> Some t | None \<Rightarrow> topics c n))
 \<and> (t \<in> set ts \<and> errorCode t \<noteq> 0 \<and> (\<forall>u \<in> set ts. name u = name t \<longrightarrow> errorCode u \<noteq> 0) \<longrightarrow>
       topics (fst (updateMetadata c bs ts cid ctl)) (name t) = topics c (name t))
 \<and> (distinct (map name ts) \<and> t \<in> set ts \<and> errorCode t = 0 \<longrightarrow>
       topics (fst (updateMetadata c bs ts cid ctl)) (name t) = Some t)"
proof (intro conjI allI impI)
  show "brokers (fst (updateMetadata c bs ts cid ctl)) = map_of (rev (map (\<lambda>b. (nodeId b, b)) bs))"
    by (simp add: updateMetadata_fst fold_upd_map_of)
  show "topics (fst (updateMetadata c bs ts cid ctl)) n
          = (case find (\<lambda>t. name t = n \<and> errorCode t = 0) (rev ts) of
               Some t \<Rightarrow> Some t | None \<Rightarrow> topics c n)" for n
    by (simp add: updateMetadata_fst updateTopics_fst)
next
  assume a: "t \<in> set ts \<and> errorCode t \<noteq> 0 \<and> (\<forall>u \<in> set ts. name u = name t \<longrightarrow> errorCode u \<noteq> 0)"
  then have "find (\<lambda>u. name u = name t \<and> errorCode u = 0) (rev ts) = None"
    by (auto simp: find_None_iff)
  then show "topics (fst (updateMetadata c bs ts cid ctl)) (name t) = topics c (name t)"
    by (simp add: updateMetadata_fst updateTopics_fst)
next
  assume "distinct (map name ts) \<and> t \<in> set ts \<and> errorCode t = 0"
  then have "find (\<lambda>u. name u = name t \<and> errorCode u = 0) (rev ts) = Some t"
    by (intro find_last_distinct) auto
  then show "topics (fst (updateMetadata c bs ts cid ctl)) (name t) = Some t"
    by (simp add: updateMetadata_fst updateTopics_fst)
qed

lemma ex_broker_sel [simp]: "nodeId (ex_broker n) = n"
  by (simp add: ex_broker_def)

theorem metadata_merge_witness:
  "brokers (fst (updateMetadata (ex_cache (ex_topic 0 ''orders'' [ex_partition 0 1 [1] [1]]))
       [ex_broker 1, ex_broker 2]
       [ex_topic 3 ''orders'' [], ex_topic 0 ''payments'' [ex_partition 0 2 [2] [2]]] None 1))
     = map_of (rev (map (\<lambda>b. (nodeId b, b)) [ex_broker 1, ex_broker 2]))
 \<and> topics (fst (updateMetadata (ex_cache (ex_topic 0 ''orders'' [ex_partition 0 1 [1] [1]]))
       [ex_broker 1, ex_broker 2]
       [ex_topic 3 ''orders'' [], ex_topic 0 ''payments'' [ex_partition 0 2 [2] [2]]] None 1))
       ''orders''
     = Some (ex_topic 0 ''orders'' [ex_partition 0 1 [1] [1]])
 \<and> topics (fst (updateMetadata (ex_cache (ex_topic 0 ''orders'' [ex_partition 0 1 [1] [1]]))
       [ex_broker 1, ex_broker 2]
       [ex_topic 3 ''orders'' [], ex_topic 0 ''payments'' [ex_partition 0 2 [2] [2]]] None 1))
       ''payments''
     = Some (ex_topic 0 ''payments'' [ex_partition 0 2 [2] [2]])"
proof -
  let ?c = "ex_cache (ex_topic 0 ''orders'' [ex_partition 0 1 [1] [1]])"
  let ?bs = "[ex_broker 1, ex_broker 2]"
  let ?e = "ex_topic 3 ''orders'' []"
  let ?p = "ex_topic 0 ''payments'' [ex_partition 0 2 [2] [2]]"
  have 1: "?e \<in> set [?e, ?p] \<and> errorCode ?e \<noteq> 0 \<and> (\<forall>u \<in> set [?e, ?p]. name u = name ?e \<longrightarrow> errorCode u \<noteq> 0)"
    by simp
  have 2: "distinct (map name [?e, ?p]) \<and> ?p \<in> set [?e, ?p] \<and> errorCode ?p = 0"
    by simp
  have 3: "topics ?c (name ?e) = Some (ex_topic 0 ''orders'' [ex_partition 0 1 [1] [1]])"
    by simp
  from metadata_merge [of ?c ?bs "[?e, ?p]" None 1 ?e] 1 3
  have a: "topics (fst (updateMetadata ?c ?bs [?e, ?p] None 1)) ''orders''
             = Some (ex_topic 0 ''orders'' [ex_partition 0 1 [1] [1]])"
    and b: "brokers (fst (updateMetadata ?c ?bs [?e, ?p] None 1))
             = map_of (rev (map (\<lambda>b. (nodeId b, b)) ?bs))"
    by simp_all
  from metadata_merge [of ?c ?bs "[?e, ?p]" None 1 ?p] 2
  have c: "topics (fst (updateMetadata ?c ?bs [?e, ?p] None 1)) ''payments'' = Some ?p"
    by simp
  from a b c show ?thesis by simp
qed

text \<open>
  Claim C6, as the code has it. With one entry per topic name in the response and one
  partition per index in the stored entries, the topics an update reports are the topics
  of the response with error code zero that are newly seen, or whose partition count
  differs, or that have a partition with no stored partition of its index or whose leader
  id, leader epoch, or replica, ISR or offline-replica list differs from the stored one as
  a multiset: in any order, counting repetitions. A second update that equals the first
  up to the order of those lists reports nothing and emits no event; a changed leaderId
  reports the topic; the first update emits an event whatever it reports.
\<close>

theorem topology_change_detection:
  "(distinct (map name ts)
    \<and> (\<forall>t \<in> set ts. \<forall>old. topics c (name t) = Some old \<longrightarrow>
          distinct (map partitionIndex (partitions old))) \<longrightarrow>
      snd (updateMetadata c bs ts cid ctl)
        = (let changed = map name
             (filter (\<lambda>t. errorCode t = 0 \<and> spec_topic_changed (topics c (name t)) t) ts)
           in if changed \<noteq> [] \<or> \<not> isMetadataInitialized c then Some changed else None))
 \<and> (distinct (map name ts) \<and> (\<forall>t \<in> set ts. distinct (map partitionIndex (partitions t)))
    \<and> list_all2 same_topic_up_to_order ts ts' \<longrightarrow>
      snd (updateMetadata (fst (updateMetadata c bs ts cid ctl)) bs' ts' cid' ctl') = None)
 \<and> (distinct (map name ts) \<and> t \<in> set ts \<and> errorCode t = 0
    \<and> topics c (name t) = Some old \<and> distinct (map partitionIndex (partitions old))
    \<and> p \<in> set (partitions t) \<and> q \<in> set (partitions old)
    \<and> partitionIndex q = partitionIndex p \<and> leaderId q \<noteq> leaderId p \<longrightarrow>
      (\<exists>changed. snd (updateMetadata c bs ts cid ctl) = Some changed \<and> name t \<in> set changed))
 \<and> (\<not> isMetadataInitialized c \<longrightarrow>
      snd (updateMetadata c bs ts cid ctl) = Some (snd (updateTopics ts (topics c, []))))"
proof (intro conjI impI)
  assume a: "distinct (map name ts)
    \<and> (\<forall>t \<in> set ts. \<forall>old. topics c (name t) = Some old \<longrightarrow>
          distinct (map partitionIndex (partitions old)))"
  then have "snd (updateTopics ts (topics c, []))
           = map name (filter (\<lambda>t. errorCode t = 0 \<and> spec_topic_changed (topics c (name t)) t) ts)"
    by (intro updated_characterised) auto
  then show "snd (updateMetadata c bs ts cid ctl)
        = (let changed = map name
             (filter (\<lambda>t. errorCode t = 0 \<and> spec_topic_changed (topics c (name t)) t) ts)
           in if changed \<noteq> [] \<or> \<not> isMetadataInitialized c then Some changed else None)"
    by (simp add: updateMetadata_snd Let_def)
next
  assume a: "distinct (map name ts) \<and> (\<forall>t \<in> set ts. distinct (map partitionIndex (partitions t)))
    \<and> list_all2 same_topic_up_to_order ts ts'"
  then have "snd (updateTopics ts' (fst (updateTopics ts (topics c, [])), [])) = []"
    by (intro reordered_unchanged) auto
  then show "snd (updateMetadata (fst (updateMetadata c bs ts cid ctl)) bs' ts' cid' ctl') = None"
    by (simp add: updateMetadata_snd updateMetadata_fst)
next
  assume a: "distinct (map name ts) \<and> t \<in> set ts \<and> errorCode t = 0
    \<and> topics c (name t) = Some old \<and> distinct (map partitionIndex (partitions old))
    \<and> p \<in> set (partitions t) \<and> q \<in> set (partitions old)
    \<and> partitionIndex q = partitionIndex p \<and> leaderId q \<noteq> leaderId p"
  then have "name t \<in> set (snd (updateTopics ts (topics c, [])))"
    by (intro leader_change_reported [where old = old and p = p and q = q]) auto
  then show "\<exists>changed. snd (updateMetadata c bs ts cid ctl) = Some changed \<and> name t \<in> set changed"
    by (auto simp: updateMetadata_snd)
next
  assume "\<not> isMetadataInitialized c"
  then show "snd (updateMetadata c bs ts cid ctl) = Some (snd (updateTopics ts (topics c, [])))"
    by (simp add: updateMetadata_snd)
qed

text \<open>The comparison of the claim as the specification words it: the lists as sets.\<close>

definition claimed_partition_differs :: "PartitionMetadata \<Rightarrow> PartitionMetadata \<Rightarrow> bool" where
  "claimed_partition_differs old new \<longleftrightarrow>
     leaderId old \<noteq> leaderId new \<or> leaderEpoch old \<noteq> leaderEpoch new
     \<or> set (replicaNodes old) \<noteq> set (replicaNodes new)
     \<or> set (isrNodes old) \<noteq> set (isrNodes new)
     \<or> set (offlineReplicas old) \<noteq> set (offlineReplicas new)"

definition claimed_topic_changed :: "TopicMetadata option \<Rightarrow> TopicMetadata \<Rightarrow> bool" where
  "claimed_topic_changed previous new \<longleftrightarrow>
     (case previous of
        None \<Rightarrow> True
      | Some old \<Rightarrow>
          length (partitions old) \<noteq> length (partitions new)
          \<or> (\<exists>p \<in> set (partitions new).
                case find (\<lambda>q. partitionIndex q = partitionIndex p) (partitions old) of
                  None \<Rightarrow> True
                | Some q \<Rightarrow> claimed_partition_differs q p))"

theorem topology_change_detection_witness:
  "snd (updateMetadata new_ClusterMetadata []
          [ex_topic 0 ''orders'' [ex_partition 0 1 [1, 2, 3] [1, 2, 3], ex_partition 1 2 [2, 3, 1] [2, 3]]]
          None 1) = Some [''orders'']
 \<and> snd (updateMetadata
          (fst (updateMetadata new_ClusterMetadata []
             [ex_topic 0 ''orders'' [ex_partition 0 1 [1, 2, 3] [1, 2, 3], ex_partition 1 2 [2, 3, 1] [2, 3]]]
             None 1))
          []
          [ex_topic 0 ''orders'' [ex_partition 0 1 [1, 2, 3] [3, 1, 2], ex_partition 1 2 [2, 3, 1] [3, 2]]]
          None 1) = None
 \<and> (\<exists>changed.
       snd (updateMetadata
          (ex_cache (ex_topic 0 ''orders'' [ex_partition 0 1 [1, 2, 3] [1, 2, 3], ex_partition 1 2 [2, 3, 1] [2, 3]]))
          []
          [ex_topic 0 ''orders'' [ex_partition 0 2 [1, 2, 3] [1, 2, 3], ex_partition 1 2 [2, 3, 1] [2, 3]]]
          None 1) = Some changed
       \<and> ''orders'' \<in> set changed)
 \<and> snd (updateMetadata new_ClusterMetadata [] [] None 1) = Some []"
proof -
  let ?t1 = "ex_topic 0 ''orders'' [ex_partition 0 1 [1, 2, 3] [1, 2, 3], ex_partition 1 2 [2, 3, 1] [2, 3]]"
  let ?t1' = "ex_topic 0 ''orders'' [ex_partition 0 1 [1, 2, 3] [3, 1, 2], ex_partition 1 2 [2, 3, 1] [3, 2]]"
  let ?t2 = "ex_topic 0 ''orders'' [ex_partition 0 2 [1, 2, 3] [1, 2, 3], ex_partition 1 2 [2, 3, 1] [2, 3]]"
  have new: "topics new_ClusterMetadata = Map.empty" "\<not> isMetadataInitialized new_ClusterMetadata"
    by (simp_all add: new_ClusterMetadata_def)
  have A: "snd (updateMetadata new_ClusterMetadata [] [?t1] None 1) = Some [''orders'']"
    using topology_change_detection [of "[?t1]" new_ClusterMetadata "[]" None 1, THEN conjunct1]
    by (simp add: new spec_topic_changed_def)
  have same: "list_all2 same_topic_up_to_order [?t1] [?t1']"
    by (simp add: same_topic_up_to_order_def same_partition_up_to_order_def)
  have B: "snd (updateMetadata (fst (updateMetadata new_ClusterMetadata [] [?t1] None 1)) [] [?t1'] None 1) = None"
    using topology_change_detection [of "[?t1]" new_ClusterMetadata "[]" None 1 "[?t1']" "[]" None 1,
        THEN conjunct2, THEN conjunct1] same
    by simp
  have C: "\<exists>changed. snd (updateMetadata (ex_cache ?t1) [] [?t2] None 1) = Some changed
             \<and> ''orders'' \<in> set changed"
    using topology_change_detection [of "[?t2]" "ex_cache ?t1" "[]" None 1 "[]" "[]" None 1 ?t2 ?t1
        "ex_partition 0 2 [1, 2, 3] [1, 2, 3]" "ex_partition 0 1 [1, 2, 3] [1, 2, 3]",
        THEN conjunct2, THEN conjunct2, THEN conjunct1]
    by simp
  have D: "snd (updateMetadata new_ClusterMetadata [] [] None 1) = Some []"
    using topology_change_detection [of "[]" new_ClusterMetadata "[]" None 1,
        THEN conjunct2, THEN conjunct2, THEN conjunct2]
    by (simp add: new)
  from A B C D show ?thesis by simp
qed

text \<open>
  The claim as the specification states it, with the lists compared as sets, fails: the
  replica lists [1, 1, 2] and [1, 2, 2] are the same set, nothing else differs, and the
  update reports the topic.
\<close>

theorem topology_change_detection_counterexample:
  "\<not> claimed_topic_changed
       (topics (ex_cache (ex_topic 0 ''orders'' [ex_partition 0 1 [1, 1, 2] [1]])) ''orders'')
       (ex_topic 0 ''orders'' [ex_partition 0 1 [1, 2, 2] [1]])
 \<and> snd (updateMetadata (ex_cache (ex_topic 0 ''orders'' [ex_partition 0 1 [1, 1, 2] [1]])) []
          [ex_topic 0 ''orders'' [ex_partition 0 1 [1, 2, 2] [1]]] None 1)
     = Some [''orders'']"
  by code_simp

section \<open>Headers.ts and BrokerConnection.ts: one connection to one broker\<close>

text \<open>\<open>ResponseHeader.decode\<close>: the correlation id and the size of the header.\<close>

definition ResponseHeader_decode :: "Buffer \<Rightarrow> error + (int \<times> int)" where
  "ResponseHeader_decode buffer =
     (case readIntBE 4 buffer 0 of
        Inl e \<Rightarrow> Inl e
      | Inr correlationId \<Rightarrow> Inr (correlationId, 4))"

datatype ConnectionState = DISCONNECTED | CONNECTING | CONNECTED | CLOSING

text \<open>
  The promise a request is answered through is a number: the entry of the in-flight table
  holds the \<open>resolve\<close> and \<open>reject\<close> of that promise.
\<close>

record InFlightRequest =
  correlationId :: int
  sentTime :: int
  timeout :: int
  apiKey :: int
  apiVersion :: int
  requestData :: Buffer
  promise :: nat

datatype settlement = Resolve Buffer | Reject error

datatype emitted =
    EmitConnect
  | EmitDisconnect "error option"
  | EmitError error
  | EmitRequest int int int
  | EmitResponse int int int int
  | EmitThrottle int
  | EmitBytesOut nat
  | EmitBytesIn nat

text \<open>
  The state of a connection. \<open>socket\<close> says whether the field holds a socket;
  \<open>inFlightRequests\<close> is the \<open>Map\<close>, its entries in insertion order. The last four
  fields are not fields of the class, they record what the connection did: the events it
  emitted, the calls of \<open>resolve\<close> and \<open>reject\<close> it made with the promise they belong to,
  the frames it wrote to the socket, and the number of promises \<open>send\<close> created.
  An event that is emitted is recorded and nothing more: the listeners are outside the
  model, and the \<open>error\<close> event is taken to have one, as the connections of the pool of
  the client have.
\<close>

record BrokerConnection =
  clientId :: "jsstring option"
  maxRequestSize :: int
  requestTimeout :: int
  socket :: bool
  state :: ConnectionState
  connectionError :: "error option"
  correlationIdCounter :: int
  inFlightRequests :: "(int \<times> InFlightRequest) list"
  buffer :: "Buffer option"
  connectionTimeout :: bool
  requestTimeoutInterval :: bool
  emitted :: "emitted list"
  settled :: "(nat \<times> settlement) list"
  written :: "Buffer list"
  promises :: nat

text \<open>The constructor: a configuration value of 0 or none gives the default.\<close>

definition new_BrokerConnection :: "jsstring option \<Rightarrow> int \<Rightarrow> int \<Rightarrow> BrokerConnection" where
  "new_BrokerConnection cid maxSize reqTimeout =
     \<lparr>clientId = cid,
      maxRequestSize = (if maxSize = 0 then 100 * 1024 * 1024 else maxSize),
      requestTimeout = (if reqTimeout = 0 then 30000 else reqTimeout),
      socket = False, state = DISCONNECTED, connectionError = None, correlationIdCounter = 0,
      inFlightRequests = [], buffer = None, connectionTimeout = False,
      requestTimeoutInterval = False, emitted = [], settled = [], written = [], promises = 0\<rparr>"

subsection \<open>The operations of a Map\<close>

fun map_set :: "('k \<times> 'v) list \<Rightarrow> 'k \<Rightarrow> 'v \<Rightarrow> ('k \<times> 'v) list" where
  "map_set [] k v = [(k, v)]"
| "map_set ((k', v') # m) k v = (if k' = k then (k, v) # m else (k', v') # map_set m k v)"

definition map_delete :: "('k \<times> 'v) list \<Rightarrow> 'k \<Rightarrow> ('k \<times> 'v) list" where
  "map_delete m k = filter (\<lambda>(k', v). k' \<noteq> k) m"

definition emit :: "BrokerConnection \<Rightarrow> emitted \<Rightarrow> BrokerConnection" where
  "emit c e = c\<lparr>emitted := emitted c @ [e]\<rparr>"

definition settle :: "BrokerConnection \<Rightarrow> nat \<Rightarrow> settlement \<Rightarrow> BrokerConnection" where
  "settle c p s = c\<lparr>settled := settled c @ [(p, s)]\<rparr>"

subsection \<open>disconnect, onError, onDisconnect\<close>

text \<open>\<open>for (const request of this.inFlightRequests.values()) request.reject(e)\<close>\<close>

definition rejectAll :: "BrokerConnection \<Rightarrow> error \<Rightarrow> BrokerConnection" where
  "rejectAll c e = fold (\<lambda>(k, request) c. settle c (promise request) (Reject e)) (inFlightRequests c) c"

definition disconnect :: "BrokerConnection \<Rightarrow> BrokerConnection" where
  "disconnect c =
     (if state c = DISCONNECTED then c
      else
        (let c = c\<lparr>state := CLOSING\<rparr>;
             c = c\<lparr>connectionTimeout := False\<rparr>;
             c = c\<lparr>requestTimeoutInterval := False\<rparr>;
             c = rejectAll c (DisconnectedError ConnectionClosed);
             c = c\<lparr>inFlightRequests := []\<rparr>;
             c = c\<lparr>socket := False\<rparr>;
             c = c\<lparr>state := DISCONNECTED\<rparr>
         in emit c (EmitDisconnect None)))"

definition onError :: "BrokerConnection \<Rightarrow> error \<Rightarrow> BrokerConnection" where
  "onError c e =
     (let c = c\<lparr>connectionError := Some e\<rparr>;
          c = emit c (EmitError e)
      in disconnect c)"

definition onDisconnect :: "BrokerConnection \<Rightarrow> error option \<Rightarrow> BrokerConnection" where
  "onDisconnect c e =
     (let wasConnected = (state c = CONNECTED);
          c = c\<lparr>state := DISCONNECTED\<rparr>;
          c = c\<lparr>connectionTimeout := False\<rparr>;
          c = c\<lparr>requestTimeoutInterval := False\<rparr>;
          c = rejectAll c (case e of Some err \<Rightarrow> err | None \<Rightarrow> DisconnectedError ConnectionClosed);
          c = c\<lparr>inFlightRequests := []\<rparr>;
          c = c\<lparr>socket := False\<rparr>
      in if wasConnected then emit c (EmitDisconnect e) else c)"

subsection \<open>connect\<close>

text \<open>
  \<open>connect()\<close> up to the creation of the socket, and the handler of the socket's
  \<open>connect\<close> event. The promise \<open>connect()\<close> returns is not modelled.
\<close>

definition connect :: "BrokerConnection \<Rightarrow> BrokerConnection" where
  "connect c =
     (if state c = CONNECTED then c
      else if state c = CONNECTING then c
      else c\<lparr>state := CONNECTING, connectionError := None, socket := True,
             connectionTimeout := True\<rparr>)"

definition onSocketConnect :: "BrokerConnection \<Rightarrow> BrokerConnection" where
  "onSocketConnect c =
     (let c = c\<lparr>connectionTimeout := False\<rparr>;
          c = c\<lparr>state := CONNECTED\<rparr>;
          c = c\<lparr>requestTimeoutInterval := True\<rparr>
      in emit c EmitConnect)"

definition isConnected :: "BrokerConnection \<Rightarrow> bool" where
  "isConnected c \<longleftrightarrow> state c = CONNECTED \<and> socket c"

subsection \<open>send\<close>

definition nextCorrelationId :: "BrokerConnection \<Rightarrow> BrokerConnection \<times> int" where
  "nextCorrelationId c =
     (let c = c\<lparr>correlationIdCounter := (correlationIdCounter c + 1) mod 2147483647\<rparr>
      in (c, correlationIdCounter c))"

text \<open>
  \<open>send\<close> returns the connection and what became of the call: the error it threw, or the
  promise of the request it registered. \<open>timeout\<close> is \<open>None\<close> when the caller passes
  none; \<open>now\<close> is what \<open>Date.now()\<close> returns.
\<close>

definition send ::
  "BrokerConnection \<Rightarrow> int \<Rightarrow> int \<Rightarrow> Buffer \<Rightarrow> int option \<Rightarrow> int
     \<Rightarrow> BrokerConnection \<times> (error + nat)" where
  "send c apiKey' apiVersion' requestData' timeout' now =
     (if \<not> isConnected c then (c, Inl (DisconnectedError NotConnectedToBroker))
      else
        (case nextCorrelationId c of (c, correlationId') \<Rightarrow>
        (case RequestHeader_encode
                \<lparr>hdr_apiKey = apiKey', hdr_apiVersion = apiVersion',
                 hdr_correlationId = correlationId', hdr_clientId = clientId c\<rparr> of
           Inl e \<Rightarrow> (c, Inl e)
         | Inr headerBuffer \<Rightarrow>
             (let totalSize = 4 + length headerBuffer + length requestData'
              in if int totalSize > maxRequestSize c
                 then (c, Inl (KafkaError (RequestSizeExceedsMax (int totalSize) (maxRequestSize c))))
                 else
                   (case writeIntBE 4 (alloc totalSize) (int totalSize - 4) 0 of
                      Inl e \<Rightarrow> (c, Inl e)
                    | Inr request \<Rightarrow>
                        (let request = blit headerBuffer request 4;
                             request = blit requestData' request (4 + length headerBuffer);
                             c = emit c (EmitBytesOut (length request));
                             p = promises c;
                             c = c\<lparr>promises := p + 1\<rparr>;
                             inFlightRequest =
                               \<lparr>correlationId = correlationId', sentTime = now,
                                timeout = (case timeout' of
                                             None \<Rightarrow> requestTimeout c
                                           | Some t \<Rightarrow> if t = 0 then requestTimeout c else t),
                                apiKey = apiKey', apiVersion = apiVersion',
                                requestData = requestData', promise = p\<rparr>;
                             c = c\<lparr>inFlightRequests :=
                                     map_set (inFlightRequests c) correlationId' inFlightRequest\<rparr>;
                             c = emit c (EmitRequest apiKey' apiVersion' correlationId');
                             c = c\<lparr>written := written c @ [request]\<rparr>
                         in (c, Inr p)))))))"

text \<open>
  The callback \<open>send\<close> passes to \<open>socket.write\<close>, for the request with that correlation id
  and promise.
\<close>

definition onWriteDone :: "BrokerConnection \<Rightarrow> int \<Rightarrow> nat \<Rightarrow> error option \<Rightarrow> BrokerConnection" where
  "onWriteDone c correlationId' p err =
     (case err of
        None \<Rightarrow> c
      | Some e \<Rightarrow>
          (let c = c\<lparr>inFlightRequests := map_delete (inFlightRequests c) correlationId'\<rparr>
           in settle c p (Reject e)))"

subsection \<open>Responses\<close>

definition handleResponse :: "BrokerConnection \<Rightarrow> Buffer \<Rightarrow> int \<Rightarrow> BrokerConnection" where
  "handleResponse c responseBuffer now =
     (case ResponseHeader_decode responseBuffer of
        Inl e \<Rightarrow> onError c e
      | Inr (headerCorrelationId, headerSize) \<Rightarrow>
          (case map_of (inFlightRequests c) headerCorrelationId of
             None \<Rightarrow> c
           | Some request \<Rightarrow>
               (let c = c\<lparr>inFlightRequests := map_delete (inFlightRequests c) headerCorrelationId\<rparr>;
                    duration = now - sentTime request;
                    c = emit c (EmitResponse (apiKey request) (apiVersion request)
                                  headerCorrelationId duration)
                in if int (length responseBuffer) \<ge> headerSize + 4
                   then (case readIntBE 4 responseBuffer headerSize of
                           Inl e \<Rightarrow> onError c e
                         | Inr throttleTimeMs \<Rightarrow>
                             (let c = (if throttleTimeMs > 0 then emit c (EmitThrottle throttleTimeMs)
                                       else c)
                              in settle c (promise request)
                                   (Resolve (slice_from responseBuffer headerSize))))
                   else settle c (promise request)
                          (Resolve (slice_from responseBuffer headerSize)))))"

subsection \<open>Incoming bytes\<close>

text \<open>
  The \<open>while\<close> loop of \<open>handleIncomingData\<close>. It ends with the number of bytes processed
  (\<open>Inr\<close>), with the \<open>RangeError\<close> of a read at a negative offset (\<open>Inl\<close>), or not at all
  (\<open>None\<close>): a length prefix of -4 leaves \<open>processed\<close> where it is.
\<close>

partial_function (option) processMessages ::
  "Buffer \<Rightarrow> int \<Rightarrow> int \<Rightarrow> BrokerConnection \<Rightarrow> (error + int \<times> BrokerConnection) option" where
  "processMessages buf now processed c =
     (if processed < int (length buf)
      then (if int (length buf) - processed < 4 then Some (Inr (processed, c))
            else (case readIntBE 4 buf processed of
                    Inl e \<Rightarrow> Some (Inl e)
                  | Inr messageSize \<Rightarrow>
                      if int (length buf) - processed - 4 < messageSize then Some (Inr (processed, c))
                      else processMessages buf now (processed + 4 + messageSize)
                             (handleResponse c (slice buf (processed + 4) (processed + 4 + messageSize)) now)))
      else Some (Inr (processed, c)))"

declare processMessages.simps [code]

definition handleIncomingData ::
  "BrokerConnection \<Rightarrow> Buffer \<Rightarrow> int \<Rightarrow> (error + BrokerConnection) option" where
  "handleIncomingData c data now =
     (let c = emit c (EmitBytesIn (length data));
          buf = (case buffer c of Some b \<Rightarrow> b @ data | None \<Rightarrow> data);
          c = c\<lparr>buffer := Some buf\<rparr>
      in case processMessages buf now 0 c of
           None \<Rightarrow> None
         | Some (Inl e) \<Rightarrow> Some (Inl e)
         | Some (Inr (processed, c)) \<Rightarrow>
             if processed = 0 then Some (Inr c)
             else if processed < int (length buf)
             then Some (Inr (c\<lparr>buffer := Some (slice_from buf processed)\<rparr>))
             else Some (Inr (c\<lparr>buffer := None\<rparr>)))"

subsection \<open>The sweep of the request timeouts\<close>

text \<open>
  The callback of the interval timer: the loop over the entries of the table, each
  entry deleted by its key when it is older than its own timeout.
\<close>

fun sweep_loop :: "(int \<times> InFlightRequest) list \<Rightarrow> int \<Rightarrow> BrokerConnection \<Rightarrow> BrokerConnection" where
  "sweep_loop [] now c = c"
| "sweep_loop ((correlationId', request) # entries) now c =
     (let age = now - sentTime request
      in if age > timeout request
         then sweep_loop entries now
                (settle (c\<lparr>inFlightRequests := map_delete (inFlightRequests c) correlationId'\<rparr>)
                   (promise request)
                   (Reject (TimeoutError (RequestTimedOutAfter age correlationId' (apiKey request)))))
         else sweep_loop entries now c)"

definition requestTimeoutSweep :: "BrokerConnection \<Rightarrow> int \<Rightarrow> BrokerConnection" where
  "requestTimeoutSweep c now = sweep_loop (inFlightRequests c) now c"

subsection \<open>What happens to a connection\<close>

text \<open>
  The calls of the public methods and the events of the socket and of the timers, with
  the time \<open>Date.now()\<close> returns where the handler reads it. A socket error is an \<open>Error\<close>
  of the socket's, numbered.
\<close>

datatype event =
    CallConnect
  | CallDisconnect
  | CallSend int int Buffer "int option" int
  | WriteDone int nat "nat option"
  | SocketConnect
  | SocketData Buffer int
  | SocketError nat
  | SocketEnd
  | SocketClose bool
  | SocketTimeout
  | ConnectionTimeout
  | TimerTick int

text \<open>
  One step; \<open>None\<close> when the handler does not return (the loop of \<open>handleIncomingData\<close>
  does not end, or throws).
\<close>

definition step :: "BrokerConnection \<Rightarrow> event \<Rightarrow> BrokerConnection option" where
  "step c ev =
     (case ev of
        CallConnect \<Rightarrow> Some (connect c)
      | CallDisconnect \<Rightarrow> Some (disconnect c)
      | CallSend k v d t now \<Rightarrow> Some (fst (send c k v d t now))
      | WriteDone cid p err \<Rightarrow>
          Some (onWriteDone c cid p (map_option (\<lambda>n. PlainError (SocketFailure n)) err))
      | SocketConnect \<Rightarrow> Some (onSocketConnect c)
      | SocketData d now \<Rightarrow>
          (case handleIncomingData c d now of
             Some (Inr c') \<Rightarrow> Some c'
           | _ \<Rightarrow> None)
      | SocketError n \<Rightarrow> Some (onError c (PlainError (SocketFailure n)))
      | SocketEnd \<Rightarrow> Some (onDisconnect c (Some (DisconnectedError BrokerClosedConnection)))
      | SocketClose hadError \<Rightarrow> Some (if hadError then c else onDisconnect c None)
      | SocketTimeout \<Rightarrow> Some (onError c (TimeoutError SocketTimedOut))
      | ConnectionTimeout \<Rightarrow>
          Some (if connectionTimeout c then onError c (TimeoutError ConnectionTimedOut) else c)
      | TimerTick now \<Rightarrow>
          Some (if requestTimeoutInterval c then requestTimeoutSweep c now else c))"


text \<open>A complete frame: the length of the body as a big-endian int32, then the body.\<close>

definition frame :: "Buffer \<Rightarrow> Buffer" where
  "frame body = be_bytes 4 (int (length body)) @ body"

text \<open>Feeding the chunks of a byte stream to the handler, each with its time of arrival.\<close>

fun feed :: "BrokerConnection \<Rightarrow> (Buffer \<times> int) list \<Rightarrow> (error + BrokerConnection) option" where
  "feed c [] = Some (Inr c)"
| "feed c ((data, now) # chunks) =
     (case handleIncomingData c data now of
        Some (Inr c') \<Rightarrow> feed c' chunks
      | r \<Rightarrow> r)"

lemma rejectAll_eq:
  "rejectAll c e = c\<lparr>settled := settled c @ map (\<lambda>(k, r). (promise r, Reject e)) (inFlightRequests c)\<rparr>"
proof -
  have "fold (\<lambda>(k, request) c. settle c (promise request) (Reject e)) xs c
          = c\<lparr>settled := settled c @ map (\<lambda>(k, r). (promise r, Reject e)) xs\<rparr>" for xs
    by (induction xs arbitrary: c) (auto simp: settle_def)
  then show ?thesis by (simp add: rejectAll_def)
qed

text \<open>The connection after it received bytes that it keeps: the events, and the buffer.\<close>

definition received :: "BrokerConnection \<Rightarrow> emitted list \<Rightarrow> Buffer \<Rightarrow> BrokerConnection" where
  "received c es buf = c\<lparr>emitted := emitted c @ es, buffer := Some buf\<rparr>"

lemma received_received:
  "received (received c es buf) es' buf' = received c (es @ es') buf'"
  by (simp add: received_def)

lemma frame_read:
  assumes "length body < 2147483648" "buf @ rest = frame body" "4 \<le> length buf"
  shows "readIntBE 4 buf 0 = Inr (int (length body))"
proof -
  let ?n = "int (length body)"
  have "take 4 (buf @ rest) = take 4 (be_bytes 4 ?n @ body)"
    using assms(2) by (simp add: frame_def)
  then have "take 4 buf = be_bytes 4 ?n" using assms(3) by simp
  then have "buf = be_bytes 4 ?n @ drop 4 buf"
    by (metis append_take_drop_id)
  then have "readIntBE 4 buf 0 = readIntBE 4 ([] @ be_bytes 4 ?n @ drop 4 buf) 0" by simp
  also have "\<dots> = Inr ?n"
    using assms(1) by (intro readIntBE_at') auto
  finally show ?thesis .
qed

lemma processMessages_partial:
  assumes "length body < 2147483648" "buf @ rest = frame body" "rest \<noteq> []"
  shows "processMessages buf now 0 c = Some (Inr (0, c))"
proof (cases "4 \<le> length buf")
  case False
  then show ?thesis by (subst processMessages.simps) auto
next
  case True
  have "length buf + length rest = 4 + length body"
    using arg_cong [OF assms(2), of length] by (simp add: frame_def)
  with assms(3) have short: "int (length buf) - 0 - 4 < int (length body)"
    by (cases rest) auto
  show ?thesis
    using True short frame_read [OF assms(1,2) True]
    by (subst processMessages.simps) auto
qed

lemma processMessages_complete:
  assumes "length body < 2147483648"
  shows "processMessages (frame body) now 0 c
           = Some (Inr (int (length (frame body)), handleResponse c body now))"
proof -
  let ?n = "int (length body)"
  have rd: "readIntBE 4 (frame body) 0 = Inr ?n"
    using frame_read [OF assms, of "frame body" "[]"] by (simp add: frame_def)
  have sl: "slice (frame body) (0 + 4) (0 + 4 + ?n) = body"
    using slice_at' [of 4 "be_bytes 4 ?n" ?n body "[]"] by (simp add: frame_def)
  have len: "int (length (frame body)) = 4 + ?n" by (simp add: frame_def)
  have fin: "processMessages (frame body) now (0 + 4 + ?n) c' = Some (Inr (4 + ?n, c'))" for c'
    by (subst processMessages.simps) (simp add: len)
  show ?thesis
    by (subst processMessages.simps) (simp add: rd sl fin len del: add_0)
qed

lemma handleIncomingData_partial:
  assumes "length body < 2147483648"
    and "(case buffer c of Some b \<Rightarrow> b | None \<Rightarrow> []) @ data @ rest = frame body" "rest \<noteq> []"
  shows "handleIncomingData c data now
           = Some (Inr (received c [EmitBytesIn (length data)]
                          ((case buffer c of Some b \<Rightarrow> b | None \<Rightarrow> []) @ data)))"
proof -
  let ?buf = "(case buffer c of Some b \<Rightarrow> b | None \<Rightarrow> []) @ data"
  have b: "(case buffer (emit c (EmitBytesIn (length data))) of Some b \<Rightarrow> b @ data | None \<Rightarrow> data) = ?buf"
    by (simp add: emit_def split: option.splits)
  have p: "processMessages ?buf now 0 c' = Some (Inr (0, c'))" for c'
    using assms by (intro processMessages_partial [where rest = rest and body = body]) auto
  show ?thesis
    unfolding handleIncomingData_def Let_def b p
    by (simp add: received_def emit_def)
qed

lemma handleIncomingData_complete:
  assumes "length body < 2147483648"
    and "(case buffer c of Some b \<Rightarrow> b | None \<Rightarrow> []) @ data = frame body"
  shows "handleIncomingData c data now
           = Some (Inr ((handleResponse (received c [EmitBytesIn (length data)] (frame body)) body now)
                          \<lparr>buffer := None\<rparr>))"
proof -
  have b: "(case buffer (emit c (EmitBytesIn (length data))) of Some b \<Rightarrow> b @ data | None \<Rightarrow> data)
             = frame body"
    using assms(2) by (simp add: emit_def split: option.splits)
  have nz: "int (length (frame body)) \<noteq> 0" by (simp add: frame_def)
  show ?thesis
    unfolding handleIncomingData_def Let_def b processMessages_complete [OF assms(1)]
    using nz by (simp add: received_def emit_def)
qed

text \<open>
  What a connection shows apart from the byte counts it reports and the bytes it holds
  back: the settlements, the table, the state, and the events other than \<open>bytesIn\<close>.
\<close>

fun is_bytesIn :: "emitted \<Rightarrow> bool" where
  "is_bytesIn (EmitBytesIn n) = True"
| "is_bytesIn e = False"

definition observable ::
  "BrokerConnection \<Rightarrow> (nat \<times> settlement) list \<times> (int \<times> InFlightRequest) list \<times> ConnectionState
     \<times> bool \<times> emitted list" where
  "observable c =
     (settled c, inFlightRequests c, state c, socket c, filter (\<lambda>e. \<not> is_bytesIn e) (emitted c))"

lemma observable_disconnect:
  "observable c = observable c' \<Longrightarrow> observable (disconnect c) = observable (disconnect c')"
  by (auto simp: observable_def disconnect_def rejectAll_eq emit_def Let_def)

lemma observable_onError:
  "observable c = observable c' \<Longrightarrow> observable (onError c e) = observable (onError c' e)"
  unfolding onError_def Let_def
  by (rule observable_disconnect) (auto simp: observable_def emit_def)

lemma observable_emit:
  "observable c = observable c' \<Longrightarrow> observable (emit c e) = observable (emit c' e)"
  by (auto simp: observable_def emit_def)

lemma observable_settle:
  "observable c = observable c' \<Longrightarrow> observable (settle c p s) = observable (settle c' p s)"
  by (auto simp: observable_def settle_def)

lemma observable_delete:
  "observable c = observable c' \<Longrightarrow>
     observable (c\<lparr>inFlightRequests := map_delete (inFlightRequests c) k\<rparr>)
       = observable (c'\<lparr>inFlightRequests := map_delete (inFlightRequests c') k\<rparr>)"
  by (auto simp: observable_def)

lemma observable_handleResponse:
  assumes "observable c = observable c'"
  shows "observable (handleResponse c m now) = observable (handleResponse c' m now)"
proof -
  have tbl: "inFlightRequests c = inFlightRequests c'"
    using assms by (simp add: observable_def)
  show ?thesis
  proof (cases "ResponseHeader_decode m")
    case (Inl e)
    then show ?thesis
      by (simp add: handleResponse_def observable_onError [OF assms])
  next
    case (Inr hdr)
    obtain cid sz where hdr: "hdr = (cid, sz)" by (cases hdr)
    show ?thesis
    proof (cases "map_of (inFlightRequests c) cid")
      case None
      then show ?thesis using Inr hdr tbl assms by (simp add: handleResponse_def)
    next
      case (Some r)
      let ?d = "\<lambda>x. x\<lparr>inFlightRequests := map_delete (inFlightRequests x) cid\<rparr>"
      let ?e = "\<lambda>x. emit (?d x) (EmitResponse (apiKey r) (apiVersion r) cid (now - sentTime r))"
      have e: "observable (?e c) = observable (?e c')"
        by (intro observable_emit observable_delete assms)
      have d: "observable (c\<lparr>inFlightRequests := map_delete (inFlightRequests c') cid\<rparr>)
                 = observable (c'\<lparr>inFlightRequests := map_delete (inFlightRequests c') cid\<rparr>)"
        using observable_delete [OF assms, of cid] by (simp add: tbl)
      show ?thesis
        using Inr hdr Some tbl
        by (auto simp: handleResponse_def Let_def split: sum.splits
            intro!: observable_settle observable_onError observable_emit e d)
    qed
  qed
qed

lemma observable_received: "observable (received c es buf) = observable c"
  if "\<forall>e \<in> set es. is_bytesIn e"
  using that by (simp add: observable_def received_def)

lemma observable_buffer: "observable (c\<lparr>buffer := b\<rparr>) = observable c"
  by (simp add: observable_def)

definition pending :: "BrokerConnection \<Rightarrow> Buffer" where
  "pending c = (case buffer c of Some b \<Rightarrow> b | None \<Rightarrow> [])"

definition bytesIn_events :: "(Buffer \<times> int) list \<Rightarrow> emitted list" where
  "bytesIn_events chunks = map (\<lambda>(data, now). EmitBytesIn (length data)) chunks"

lemma pending_received [simp]: "pending (received c es buf) = buf"
  by (simp add: pending_def received_def)

lemma feed_partial:
  assumes "length body < 2147483648"
  shows "chunks \<noteq> [] \<Longrightarrow> pending c @ concat (map fst chunks) @ rest = frame body \<Longrightarrow> rest \<noteq> [] \<Longrightarrow>
     feed c chunks
       = Some (Inr (received c (bytesIn_events chunks) (pending c @ concat (map fst chunks))))"
proof (induction chunks arbitrary: c)
  case Nil
  then show ?case by simp
next
  case (Cons ch chunks)
  obtain data now where ch: "ch = (data, now)" by (cases ch)
  let ?c1 = "received c [EmitBytesIn (length data)] (pending c @ data)"
  have 1: "handleIncomingData c data now = Some (Inr ?c1)"
    using handleIncomingData_partial [OF assms, of c data "concat (map fst chunks) @ rest" now]
      Cons.prems by (simp add: ch pending_def)
  show ?case
  proof (cases "chunks = []")
    case True
    then show ?thesis by (simp add: ch 1 bytesIn_events_def)
  next
    case False
    have "feed ?c1 chunks
            = Some (Inr (received ?c1 (bytesIn_events chunks) (pending ?c1 @ concat (map fst chunks))))"
      using Cons.prems by (intro Cons.IH [OF False]) (simp_all add: ch)
    then show ?thesis
      by (simp add: ch 1 received_received bytesIn_events_def)
  qed
qed

lemma feed_complete:
  assumes "length body < 2147483648"
  shows "chunks \<noteq> [] \<Longrightarrow> fst (last chunks) \<noteq> [] \<Longrightarrow>
     pending c @ concat (map fst chunks) = frame body \<Longrightarrow>
     feed c chunks
       = Some (Inr ((handleResponse (received c (bytesIn_events chunks) (frame body)) body
                       (snd (last chunks)))\<lparr>buffer := None\<rparr>))"
proof (induction chunks arbitrary: c)
  case Nil
  then show ?case by simp
next
  case (Cons ch chunks)
  obtain data now where ch: "ch = (data, now)" by (cases ch)
  show ?case
  proof (cases "chunks = []")
    case True
    then show ?thesis
      using handleIncomingData_complete [OF assms, of c data now] Cons.prems
      by (simp add: ch pending_def bytesIn_events_def)
  next
    case False
    let ?c1 = "received c [EmitBytesIn (length data)] (pending c @ data)"
    have ne: "concat (map fst chunks) \<noteq> []"
      using False Cons.prems(2) by (cases chunks rule: rev_cases) auto
    have 1: "handleIncomingData c data now = Some (Inr ?c1)"
      using handleIncomingData_partial [OF assms, of c data "concat (map fst chunks)" now]
        Cons.prems ne by (simp add: ch pending_def)
    have "feed ?c1 chunks
            = Some (Inr ((handleResponse (received ?c1 (bytesIn_events chunks) (frame body)) body
                           (snd (last chunks)))\<lparr>buffer := None\<rparr>))"
      using Cons.prems False by (intro Cons.IH [OF False]) (simp_all add: ch)
    then show ?thesis
      using False by (simp add: ch 1 received_received bytesIn_events_def)
  qed
qed

lemma bytesIn_events_all: "\<forall>e \<in> set (bytesIn_events chunks). is_bytesIn e"
  by (auto simp: bytesIn_events_def)

lemma handleResponse_matched:
  assumes "readIntBE 4 body 0 = Inr cid" "map_of (inFlightRequests c) cid = Some r"
  shows "settled (handleResponse c body now) = settled c @ [(promise r, Resolve (slice_from body 4))]"
    and "inFlightRequests (handleResponse c body now) = map_delete (inFlightRequests c) cid"
proof -
  have hd: "ResponseHeader_decode body = Inr (cid, 4)"
    using assms(1) by (simp add: ResponseHeader_decode_def)
  have th: "\<exists>x. readIntBE 4 body 4 = Inr x" if "4 + 4 \<le> int (length body)"
    using that by (simp add: readIntBE_def in_bounds_def)
  show "settled (handleResponse c body now) = settled c @ [(promise r, Resolve (slice_from body 4))]"
    using th by (auto simp: handleResponse_def hd assms(2) Let_def emit_def settle_def)
  show "inFlightRequests (handleResponse c body now) = map_delete (inFlightRequests c) cid"
    using th by (auto simp: handleResponse_def hd assms(2) Let_def emit_def settle_def)
qed


text \<open>A connected connection with a given table of requests in flight, for the examples.\<close>

definition ex_request :: "int \<Rightarrow> int \<Rightarrow> int \<Rightarrow> nat \<Rightarrow> InFlightRequest" where
  "ex_request cid sent tmo p =
     \<lparr>correlationId = cid, sentTime = sent, timeout = tmo, apiKey = 3, apiVersion = 0,
      requestData = [], promise = p\<rparr>"

definition ex_connected :: "(int \<times> InFlightRequest) list \<Rightarrow> BrokerConnection" where
  "ex_connected table =
     (new_BrokerConnection (Some [0x63, 0x6C, 0x69, 0x65, 0x6E, 0x74]) 0 0)
       \<lparr>socket := True, state := CONNECTED, requestTimeoutInterval := True,
        inFlightRequests := table, promises := length table\<rparr>"


lemma ex_request_sel [simp]:
  "correlationId (ex_request cid sent tmo p) = cid" "sentTime (ex_request cid sent tmo p) = sent"
  "timeout (ex_request cid sent tmo p) = tmo" "apiKey (ex_request cid sent tmo p) = 3"
  "apiVersion (ex_request cid sent tmo p) = 0" "promise (ex_request cid sent tmo p) = p"
  by (simp_all add: ex_request_def)

lemma ex_connected_sel [simp]:
  "inFlightRequests (ex_connected table) = table" "buffer (ex_connected table) = None"
  "settled (ex_connected table) = []" "state (ex_connected table) = CONNECTED"
  "socket (ex_connected table) = True" "promises (ex_connected table) = length table"
  by (simp_all add: ex_connected_def new_BrokerConnection_def)


text \<open>
  Claim C2. For a complete frame, however its bytes are cut into chunks, the handler ends
  on every chunk, and after the last one the connection is the one that handled the body
  of the frame once, at the time the last chunk arrived, with nothing left in the buffer:
  the settlements, the table, the state and the events other than the byte counts are the
  same for every cut, and a body that answers a request in flight adds one settlement,
  the resolution of that request with the body behind its header. While the chunks fed so
  far are less than the frame, the connection has only recorded the byte counts and kept
  the bytes: no response was handled.
\<close>

theorem frame_reassembly:
  "(length body < 2147483648 \<and> buffer c = None \<and> chunks \<noteq> [] \<and> fst (last chunks) \<noteq> []
      \<and> concat (map fst chunks) = frame body \<longrightarrow>
      feed c chunks
        = Some (Inr ((handleResponse (received c (bytesIn_events chunks) (frame body)) body
                        (snd (last chunks)))\<lparr>buffer := None\<rparr>))
      \<and> (\<exists>c'. feed c chunks = Some (Inr c') \<and> buffer c' = None
            \<and> observable c' = observable (handleResponse c body (snd (last chunks)))))
 \<and> (length body < 2147483648 \<and> buffer c = None \<and> chunks \<noteq> [] \<and> fst (last chunks) \<noteq> []
      \<and> concat (map fst chunks) = frame body
      \<and> readIntBE 4 body 0 = Inr cid \<and> map_of (inFlightRequests c) cid = Some r \<longrightarrow>
      (\<exists>c'. feed c chunks = Some (Inr c')
            \<and> settled c' = settled c @ [(promise r, Resolve (slice_from body 4))]
            \<and> inFlightRequests c' = map_delete (inFlightRequests c) cid))
 \<and> (length body < 2147483648 \<and> buffer c = None \<and> chunks \<noteq> []
      \<and> concat (map fst chunks) @ rest = frame body \<and> rest \<noteq> [] \<longrightarrow>
      feed c chunks = Some (Inr (received c (bytesIn_events chunks) (concat (map fst chunks))))
      \<and> (\<exists>c'. feed c chunks = Some (Inr c') \<and> buffer c' = Some (concat (map fst chunks))
            \<and> observable c' = observable c))"
proof (intro conjI impI)
  assume a: "length body < 2147483648 \<and> buffer c = None \<and> chunks \<noteq> [] \<and> fst (last chunks) \<noteq> []
      \<and> concat (map fst chunks) = frame body"
  let ?c' = "(handleResponse (received c (bytesIn_events chunks) (frame body)) body
                        (snd (last chunks)))\<lparr>buffer := None\<rparr>"
  show f: "feed c chunks = Some (Inr ?c')"
    using a by (intro feed_complete) (simp_all add: pending_def)
  have "observable ?c' = observable (handleResponse c body (snd (last chunks)))"
    unfolding observable_buffer
    by (intro observable_handleResponse observable_received bytesIn_events_all)
  with f show "\<exists>c'. feed c chunks = Some (Inr c') \<and> buffer c' = None
            \<and> observable c' = observable (handleResponse c body (snd (last chunks)))"
    by simp
next
  assume a: "length body < 2147483648 \<and> buffer c = None \<and> chunks \<noteq> [] \<and> fst (last chunks) \<noteq> []
      \<and> concat (map fst chunks) = frame body
      \<and> readIntBE 4 body 0 = Inr cid \<and> map_of (inFlightRequests c) cid = Some r"
  let ?c0 = "received c (bytesIn_events chunks) (frame body)"
  let ?c' = "(handleResponse ?c0 body (snd (last chunks)))\<lparr>buffer := None\<rparr>"
  have f: "feed c chunks = Some (Inr ?c')"
    using a by (intro feed_complete) (simp_all add: pending_def)
  have t: "map_of (inFlightRequests ?c0) cid = Some r" "settled ?c0 = settled c"
    "inFlightRequests ?c0 = inFlightRequests c"
    using a by (simp_all add: received_def)
  have "settled ?c' = settled c @ [(promise r, Resolve (slice_from body 4))]"
    "inFlightRequests ?c' = map_delete (inFlightRequests c) cid"
    using handleResponse_matched [of body cid ?c0 r "snd (last chunks)"] a t by simp_all
  with f show "\<exists>c'. feed c chunks = Some (Inr c')
            \<and> settled c' = settled c @ [(promise r, Resolve (slice_from body 4))]
            \<and> inFlightRequests c' = map_delete (inFlightRequests c) cid"
    by simp
next
  assume a: "length body < 2147483648 \<and> buffer c = None \<and> chunks \<noteq> []
      \<and> concat (map fst chunks) @ rest = frame body \<and> rest \<noteq> []"
  show f: "feed c chunks = Some (Inr (received c (bytesIn_events chunks) (concat (map fst chunks))))"
    using feed_partial [of body chunks c rest] a by (simp add: pending_def)
  show "\<exists>c'. feed c chunks = Some (Inr c') \<and> buffer c' = Some (concat (map fst chunks))
            \<and> observable c' = observable c"
    using f observable_received [OF bytesIn_events_all, of c chunks "concat (map fst chunks)"]
    by (simp add: received_def)
qed

theorem frame_reassembly_witness:
  "(\<exists>c'. feed (ex_connected [(7, ex_request 7 0 1000 0), (8, ex_request 8 500 1000 1)])
            (map (\<lambda>b. ([b], 5)) [0, 0, 0, 9, 0, 0, 0, 7, 0, 0, 0, 0, 0xAA]) = Some (Inr c')
          \<and> settled c' = settled (ex_connected [(7, ex_request 7 0 1000 0), (8, ex_request 8 500 1000 1)])
                            @ [(promise (ex_request 7 0 1000 0), Resolve (slice_from [0, 0, 0, 7, 0, 0, 0, 0, 0xAA] 4))]
          \<and> inFlightRequests c'
              = map_delete (inFlightRequests (ex_connected [(7, ex_request 7 0 1000 0), (8, ex_request 8 500 1000 1)])) 7)
   \<and> (\<exists>c'. feed (ex_connected [(7, ex_request 7 0 1000 0), (8, ex_request 8 500 1000 1)])
            [([0, 0, 0, 9, 0, 0], 5), ([0, 7, 0, 0, 0, 0, 0xAA], 6)] = Some (Inr c')
          \<and> buffer c' = None
          \<and> observable c' = observable (handleResponse
                (ex_connected [(7, ex_request 7 0 1000 0), (8, ex_request 8 500 1000 1)])
                [0, 0, 0, 7, 0, 0, 0, 0, 0xAA] 6))
   \<and> (\<exists>c'. feed (ex_connected [(7, ex_request 7 0 1000 0), (8, ex_request 8 500 1000 1)])
            [([0, 0, 0, 9, 0, 0, 0, 7, 0, 0, 0, 0, 0xAA], 6)] = Some (Inr c')
          \<and> buffer c' = None
          \<and> observable c' = observable (handleResponse
                (ex_connected [(7, ex_request 7 0 1000 0), (8, ex_request 8 500 1000 1)])
                [0, 0, 0, 7, 0, 0, 0, 0, 0xAA] 6))
   \<and> (\<exists>c'. feed (ex_connected [(7, ex_request 7 0 1000 0), (8, ex_request 8 500 1000 1)])
            [([0, 0, 0, 9, 0, 0], 5), ([0, 7, 0, 0, 0, 0], 6)] = Some (Inr c')
          \<and> buffer c' = Some (concat (map fst [([0, 0, 0, 9, 0, 0], 5), ([0, 7, 0, 0, 0, 0], 6)]))
          \<and> observable c' = observable (ex_connected [(7, ex_request 7 0 1000 0), (8, ex_request 8 500 1000 1)]))"
proof -
  let ?c = "ex_connected [(7, ex_request 7 0 1000 0), (8, ex_request 8 500 1000 1)]"
  let ?body = "[0, 0, 0, 7, 0, 0, 0, 0, 0xAA] :: Buffer"
  have rd: "readIntBE 4 ?body 0 = Inr 7" by code_simp
  have f: "frame ?body = [0, 0, 0, 9, 0, 0, 0, 7, 0, 0, 0, 0, 0xAA]" by code_simp
  have h1: "length ?body < 2147483648 \<and> buffer ?c = None
      \<and> map (\<lambda>b. ([b], 5 :: int)) [0, 0, 0, 9, 0, 0, 0, 7, 0, 0, 0, 0, 0xAA :: byte] \<noteq> []
      \<and> fst (last (map (\<lambda>b. ([b], 5 :: int)) [0, 0, 0, 9, 0, 0, 0, 7, 0, 0, 0, 0, 0xAA :: byte])) \<noteq> []
      \<and> concat (map fst (map (\<lambda>b. ([b], 5 :: int)) [0, 0, 0, 9, 0, 0, 0, 7, 0, 0, 0, 0, 0xAA :: byte]))
          = frame ?body
      \<and> readIntBE 4 ?body 0 = Inr 7 \<and> map_of (inFlightRequests ?c) 7 = Some (ex_request 7 0 1000 0)"
    by (simp add: rd f)
  have h2: "length ?body < 2147483648 \<and> buffer ?c = None
      \<and> [([0, 0, 0, 9, 0, 0], 5), ([0, 7, 0, 0, 0, 0, 0xAA :: byte], 6 :: int)] \<noteq> []
      \<and> fst (last [([0, 0, 0, 9, 0, 0], 5), ([0, 7, 0, 0, 0, 0, 0xAA :: byte], 6 :: int)]) \<noteq> []
      \<and> concat (map fst [([0, 0, 0, 9, 0, 0], 5), ([0, 7, 0, 0, 0, 0, 0xAA :: byte], 6 :: int)])
          = frame ?body"
    by (simp add: f)
  have h3: "length ?body < 2147483648 \<and> buffer ?c = None
      \<and> [([0, 0, 0, 9, 0, 0, 0, 7, 0, 0, 0, 0, 0xAA :: byte], 6 :: int)] \<noteq> []
      \<and> fst (last [([0, 0, 0, 9, 0, 0, 0, 7, 0, 0, 0, 0, 0xAA :: byte], 6 :: int)]) \<noteq> []
      \<and> concat (map fst [([0, 0, 0, 9, 0, 0, 0, 7, 0, 0, 0, 0, 0xAA :: byte], 6 :: int)])
          = frame ?body"
    by (simp add: f)
  have h4: "length ?body < 2147483648 \<and> buffer ?c = None
      \<and> [([0, 0, 0, 9, 0, 0], 5), ([0, 7, 0, 0, 0, 0 :: byte], 6 :: int)] \<noteq> []
      \<and> concat (map fst [([0, 0, 0, 9, 0, 0], 5), ([0, 7, 0, 0, 0, 0 :: byte], 6 :: int)]) @ [0xAA]
          = frame ?body \<and> [0xAA :: byte] \<noteq> []"
    by (simp add: f)
  note 1 = frame_reassembly [THEN conjunct2, THEN conjunct1, THEN mp, OF h1]
  note 2 = frame_reassembly [THEN conjunct1, THEN mp, OF h2, THEN conjunct2]
  note 3 = frame_reassembly [THEN conjunct1, THEN mp, OF h3, THEN conjunct2]
  note 4 = frame_reassembly [THEN conjunct2, THEN conjunct2, THEN mp, OF h4, THEN conjunct2]
  show ?thesis using 1 2 3 4 by (simp del: feed.simps)
qed

definition expired :: "int \<Rightarrow> InFlightRequest \<Rightarrow> bool" where
  "expired now request \<longleftrightarrow> now - sentTime request > timeout request"

definition timeout_rejection :: "int \<Rightarrow> int \<times> InFlightRequest \<Rightarrow> nat \<times> settlement" where
  "timeout_rejection now entry =
     (promise (snd entry),
      Reject (TimeoutError (RequestTimedOutAfter (now - sentTime (snd entry)) (fst entry)
                (apiKey (snd entry)))))"

lemma sweep_loop_eq:
  "sweep_loop entries now c
     = c\<lparr>inFlightRequests :=
            filter (\<lambda>(k, v). k \<notin> fst ` set (filter (\<lambda>(k, r). expired now r) entries))
              (inFlightRequests c),
          settled := settled c @ map (timeout_rejection now) (filter (\<lambda>(k, r). expired now r) entries)\<rparr>"
proof (induction entries arbitrary: c)
  case Nil
  then show ?case by simp
next
  case (Cons e entries)
  obtain k r where e: "e = (k, r)" by (cases e)
  show ?case
  proof (cases "expired now r")
    case False
    then show ?thesis using Cons.IH [of c] by (simp add: e expired_def Let_def)
  next
    case True
    have f: "filter (\<lambda>(k', v). k' \<notin> fst ` set (filter (\<lambda>(k, r). expired now r) entries))
               (map_delete (inFlightRequests c) k)
             = filter (\<lambda>(k', v). k' \<notin> fst ` set (filter (\<lambda>(k, r). expired now r) ((k, r) # entries)))
               (inFlightRequests c)"
      using True by (auto simp: map_delete_def intro!: filter_cong)
    have st: "sweep_loop (e # entries) now c
                = sweep_loop entries now
                    (settle (c\<lparr>inFlightRequests := map_delete (inFlightRequests c) k\<rparr>)
                       (promise r)
                       (Reject (TimeoutError (RequestTimedOutAfter (now - sentTime r) k (apiKey r)))))"
      using True by (simp add: e expired_def Let_def)
    show ?thesis
      unfolding st Cons.IH
      using True by (simp add: e settle_def f timeout_rejection_def del: set_filter)
  qed
qed


lemma map_of_filter_key:
  "map_of (filter (\<lambda>(k, v). P k) xs) k = (if P k then map_of xs k else None)"
  by (induction xs) auto

lemma sweep_removes:
  assumes "map_of (inFlightRequests c) cid = Some r" "expired now r"
  shows "map_of (inFlightRequests (requestTimeoutSweep c now)) cid = None"
    and "timeout_rejection now (cid, r) \<in> set (settled (requestTimeoutSweep c now))"
proof -
  have m: "(cid, r) \<in> set (inFlightRequests c)" using assms(1) by (rule map_of_SomeD)
  then have "(cid, r) \<in> set (filter (\<lambda>(k, r). expired now r) (inFlightRequests c))"
    using assms(2) by simp
  then have k: "cid \<in> fst ` set (filter (\<lambda>(k, r). expired now r) (inFlightRequests c))"
    by (rule image_eqI [rotated]) simp
  show "map_of (inFlightRequests (requestTimeoutSweep c now)) cid = None"
    unfolding requestTimeoutSweep_def sweep_loop_eq
    using k by (simp add: map_of_filter_key del: set_filter)
  show "timeout_rejection now (cid, r) \<in> set (settled (requestTimeoutSweep c now))"
    unfolding requestTimeoutSweep_def sweep_loop_eq
    using m assms(2) by (auto simp: image_iff intro!: bexI [of _ "(cid, r)"])
qed

lemma sweep_keeps:
  assumes "distinct (map fst (inFlightRequests c))"
    and "map_of (inFlightRequests c) k = Some r" "\<not> expired now r"
  shows "map_of (inFlightRequests (requestTimeoutSweep c now)) k = Some r"
proof -
  have "k \<notin> fst ` set (filter (\<lambda>(k, r). expired now r) (inFlightRequests c))"
  proof
    assume "k \<in> fst ` set (filter (\<lambda>(k, r). expired now r) (inFlightRequests c))"
    then obtain r' where "(k, r') \<in> set (inFlightRequests c)" "expired now r'" by auto
    then have "map_of (inFlightRequests c) k = Some r'" using assms(1) by simp
    then show False using assms(2,3) \<open>expired now r'\<close> by simp
  qed
  then show ?thesis
    unfolding requestTimeoutSweep_def sweep_loop_eq
    using assms(2) by (simp add: map_of_filter_key del: set_filter)
qed

lemma handleResponse_unmatched:
  assumes "readIntBE 4 body 0 = Inr cid" "map_of (inFlightRequests c) cid = None"
  shows "handleResponse c body now = c"
  using assms by (simp add: handleResponse_def ResponseHeader_decode_def)

lemma handleIncomingData_unmatched:
  assumes "length body < 2147483648" "buffer c = None"
    and "readIntBE 4 body 0 = Inr cid" "map_of (inFlightRequests c) cid = None"
  shows "handleIncomingData c (frame body) now
           = Some (Inr (emit c (EmitBytesIn (length (frame body)))))"
proof -
  have "handleResponse (received c [EmitBytesIn (length (frame body))] (frame body)) body now
          = received c [EmitBytesIn (length (frame body))] (frame body)"
    using assms(3,4) by (intro handleResponse_unmatched [where cid = cid]) (simp_all add: received_def)
  then show ?thesis
    using handleIncomingData_complete [of body c "frame body" now] assms(1,2)
    by (simp add: received_def emit_def)
qed


text \<open>
  Claim C4. When the age of an in-flight request exceeds its own timeout, the sweep of the timer
  removes it from the table and rejects its promise with a \<open>TimeoutError\<close> that names its
  age, its correlation id and its api key; a response that carries this correlation id
  afterwards, offered to \<open>handleResponse\<close> or arriving as a frame on the socket, leaves the
  connection as it is (the frame only counts its bytes): no error, no settlement, the table
  untouched. The sweep keeps every request that has not expired, the keys of the table
  being distinct as those of a \<open>Map\<close> are; and a response with a correlation id that is
  not in the table is dropped whatever the state.
\<close>

theorem timeout_isolation:
  "(map_of (inFlightRequests c) cid = Some r \<and> now - sentTime r > timeout r \<longrightarrow>
      map_of (inFlightRequests (requestTimeoutSweep c now)) cid = None
      \<and> (promise r, Reject (TimeoutError (RequestTimedOutAfter (now - sentTime r) cid (apiKey r))))
          \<in> set (settled (requestTimeoutSweep c now)))
   \<and> (map_of (inFlightRequests c) cid = Some r \<and> now - sentTime r > timeout r
        \<and> readIntBE 4 body 0 = Inr cid \<longrightarrow>
      handleResponse (requestTimeoutSweep c now) body later = requestTimeoutSweep c now)
   \<and> (map_of (inFlightRequests c) cid = Some r \<and> now - sentTime r > timeout r
        \<and> readIntBE 4 body 0 = Inr cid \<and> length body < 2147483648 \<and> buffer c = None \<longrightarrow>
      handleIncomingData (requestTimeoutSweep c now) (frame body) later
        = Some (Inr (emit (requestTimeoutSweep c now) (EmitBytesIn (length (frame body))))))
   \<and> (distinct (map fst (inFlightRequests c)) \<and> map_of (inFlightRequests c) k = Some r'
        \<and> \<not> now - sentTime r' > timeout r' \<longrightarrow>
      map_of (inFlightRequests (requestTimeoutSweep c now)) k = Some r')
   \<and> (map_of (inFlightRequests c) cid = None \<and> readIntBE 4 body 0 = Inr cid \<longrightarrow>
      handleResponse c body later = c)"
proof (intro conjI impI)
  assume a: "map_of (inFlightRequests c) cid = Some r \<and> now - sentTime r > timeout r"
  then have e: "expired now r" by (simp add: expired_def)
  show "map_of (inFlightRequests (requestTimeoutSweep c now)) cid = None"
    using sweep_removes(1) a e by blast
  show "(promise r, Reject (TimeoutError (RequestTimedOutAfter (now - sentTime r) cid (apiKey r))))
          \<in> set (settled (requestTimeoutSweep c now))"
    using sweep_removes(2) [of c cid r now] a e by (simp add: timeout_rejection_def)
next
  assume a: "map_of (inFlightRequests c) cid = Some r \<and> now - sentTime r > timeout r
        \<and> readIntBE 4 body 0 = Inr cid"
  then have e: "expired now r" by (simp add: expired_def)
  show "handleResponse (requestTimeoutSweep c now) body later = requestTimeoutSweep c now"
    using a sweep_removes(1) [of c cid r now] e by (intro handleResponse_unmatched) auto
next
  assume a: "map_of (inFlightRequests c) cid = Some r \<and> now - sentTime r > timeout r
        \<and> readIntBE 4 body 0 = Inr cid \<and> length body < 2147483648 \<and> buffer c = None"
  then have e: "expired now r" by (simp add: expired_def)
  have b: "buffer (requestTimeoutSweep c now) = None"
    using a by (simp add: requestTimeoutSweep_def sweep_loop_eq)
  show "handleIncomingData (requestTimeoutSweep c now) (frame body) later
        = Some (Inr (emit (requestTimeoutSweep c now) (EmitBytesIn (length (frame body)))))"
    using a b sweep_removes(1) [of c cid r now] e
    by (intro handleIncomingData_unmatched [where cid = cid]) auto
next
  assume "distinct (map fst (inFlightRequests c)) \<and> map_of (inFlightRequests c) k = Some r'
        \<and> \<not> now - sentTime r' > timeout r'"
  then show "map_of (inFlightRequests (requestTimeoutSweep c now)) k = Some r'"
    by (intro sweep_keeps) (auto simp: expired_def)
next
  assume "map_of (inFlightRequests c) cid = None \<and> readIntBE 4 body 0 = Inr cid"
  then show "handleResponse c body later = c"
    by (intro handleResponse_unmatched [where cid = cid]) auto
qed

theorem timeout_isolation_witness:
  "map_of (inFlightRequests (requestTimeoutSweep
       (ex_connected [(7, ex_request 7 0 1000 0), (8, ex_request 8 500 1000 1)]) 1200)) 7 = None
   \<and> (0, Reject (TimeoutError (RequestTimedOutAfter 1200 7 3)))
       \<in> set (settled (requestTimeoutSweep
           (ex_connected [(7, ex_request 7 0 1000 0), (8, ex_request 8 500 1000 1)]) 1200))
   \<and> handleResponse (requestTimeoutSweep
         (ex_connected [(7, ex_request 7 0 1000 0), (8, ex_request 8 500 1000 1)]) 1200)
       [0, 0, 0, 7, 0, 0, 0, 0, 0xAA] 1300
       = requestTimeoutSweep (ex_connected [(7, ex_request 7 0 1000 0), (8, ex_request 8 500 1000 1)]) 1200
   \<and> handleIncomingData (requestTimeoutSweep
         (ex_connected [(7, ex_request 7 0 1000 0), (8, ex_request 8 500 1000 1)]) 1200)
       (frame [0, 0, 0, 7, 0, 0, 0, 0, 0xAA]) 1300
       = Some (Inr (emit (requestTimeoutSweep
           (ex_connected [(7, ex_request 7 0 1000 0), (8, ex_request 8 500 1000 1)]) 1200)
           (EmitBytesIn (length (frame [0, 0, 0, 7, 0, 0, 0, 0, 0xAA])))))
   \<and> map_of (inFlightRequests (requestTimeoutSweep
       (ex_connected [(7, ex_request 7 0 1000 0), (8, ex_request 8 500 1000 1)]) 1200)) 8
       = Some (ex_request 8 500 1000 1)
   \<and> handleResponse (ex_connected [(8, ex_request 8 500 1000 1)]) [0, 0, 0, 7, 0, 0, 0, 0, 0xAA] 1300
       = ex_connected [(8, ex_request 8 500 1000 1)]"
proof -
  let ?c = "ex_connected [(7, ex_request 7 0 1000 0), (8, ex_request 8 500 1000 1)]"
  let ?d = "ex_connected [(8, ex_request 8 500 1000 1)]"
  let ?body = "[0, 0, 0, 7, 0, 0, 0, 0, 0xAA] :: Buffer"
  have rd: "readIntBE 4 ?body 0 = Inr 7" by code_simp
  show ?thesis
    using timeout_isolation [of ?c 7 "ex_request 7 0 1000 0" 1200 ?body 1300 8 "ex_request 8 500 1000 1"]
      timeout_isolation [of ?d 7 "ex_request 7 0 1000 0" 1200 ?body 1300 8 "ex_request 8 500 1000 1"]
    by (simp add: rd)
qed

subsection \<open>The outcomes of a request\<close>

text \<open>
  The settlements that come from the in-flight table: the resolution by the matching
  response, the rejection by the sweep of the timeouts, the rejection when the connection
  is torn down. The other settlement is the rejection with the error of the socket's
  write.
\<close>

fun table_driven :: "settlement \<Rightarrow> bool" where
  "table_driven (Resolve b) = True"
| "table_driven (Reject (TimeoutError m)) = True"
| "table_driven (Reject (DisconnectedError m)) = True"
| "table_driven (Reject e) = False"













lemma count_rejects:
  "table_driven (Reject e) \<Longrightarrow>
     length (filter (\<lambda>x. fst x = p \<and> table_driven (snd x)) (map (\<lambda>(k, r). (promise r, Reject e)) tbl))
       = length (filter (\<lambda>x. promise (snd x) = p) tbl)"
  by (induction tbl) auto
































section \<open>NetworkClient.ts: requests to the nodes of the cluster\<close>

text \<open>
  The client holds the cache of the topology, the pool of connections by node id (a
  \<open>Map\<close>, in insertion order) and the connections to the seed brokers. Of a connection
  the model keeps what \<open>isConnected()\<close> returns. The network is a \<open>world\<close> that answers
  the calls the client awaits, by their number: the metadata requests (the response
  \<open>MetadataResponse.parse\<close> returns, or the error of the send or of the parse), the
  requests \<open>sendRequest\<close> passes to a connection (what the promise of
  \<open>connection.send\<close> settles with), and the attempts to connect; the answer to a send
  says whether the connection is connected afterwards. The client counts the calls of
  \<open>refreshMetadata\<close> and the requests it passes to connections; events are not modelled.
\<close>

record MetadataResponse =
  resp_brokers :: "Broker list"
  resp_clusterId :: "string option"
  resp_controllerId :: int
  resp_topics :: "TopicMetadata list"

record world =
  onMetadata :: "nat \<Rightarrow> string list option \<Rightarrow> (error + MetadataResponse) \<times> bool"
  onRequest :: "nat \<Rightarrow> int \<times> int \<times> int \<times> Buffer \<times> int option \<Rightarrow> (error + Buffer) \<times> bool"
  onConnect :: "nat \<Rightarrow> error option"

record NetworkClient =
  autoRefreshMetadata :: bool
  clusterMetadata :: ClusterMetadata
  connections :: "(int \<times> bool) list"
  seedBrokers :: "bool list"
  isRefreshingMetadata :: bool
  refreshCalls :: nat
  requestSends :: nat
  metadataSends :: nat
  connectCalls :: nat

text \<open>\<open>connection && connection.isConnected()\<close> for the connection of a node.\<close>

definition connected :: "NetworkClient \<Rightarrow> int \<Rightarrow> bool" where
  "connected s nodeId' = (case map_of (connections s) nodeId' of Some c \<Rightarrow> c | None \<Rightarrow> False)"

text \<open>
  \<open>connection.send\<close> on the connection of a node: a connection that is not connected
  throws, as \<open>BrokerConnection.send\<close> does; otherwise the world answers.
\<close>

definition connection_send ::
  "world \<Rightarrow> NetworkClient \<Rightarrow> int \<Rightarrow> int \<Rightarrow> int \<Rightarrow> Buffer \<Rightarrow> int option
     \<Rightarrow> NetworkClient \<times> (error + Buffer)" where
  "connection_send w s nodeId' apiKey' apiVersion' requestData' timeout' =
     (if \<not> connected s nodeId' then (s, Inl (DisconnectedError NotConnectedToBroker))
      else
        (case onRequest w (requestSends s) (nodeId', apiKey', apiVersion', requestData', timeout') of
           (r, after) \<Rightarrow>
             (s\<lparr>requestSends := requestSends s + 1,
                connections := map_set (connections s) nodeId' after\<rparr>, r)))"

subsection \<open>refreshMetadata\<close>

datatype broker_ref = Pooled int | Seed

text \<open>
  The broker the metadata request goes to: the first connection of the pool, or the first
  seed broker, which is connected first (\<open>connect()\<close> returns at once on a connected
  connection).
\<close>

definition pickBroker :: "world \<Rightarrow> NetworkClient \<Rightarrow> NetworkClient \<times> (error + broker_ref)" where
  "pickBroker w s =
     (if connections s \<noteq> [] then (s, Inr (Pooled (fst (hd (connections s)))))
      else if seedBrokers s \<noteq> [] then
        (if hd (seedBrokers s) then (s, Inr Seed)
         else
           (case onConnect w (connectCalls s) of
              None \<Rightarrow> (s\<lparr>connectCalls := connectCalls s + 1,
                          seedBrokers := True # tl (seedBrokers s)\<rparr>, Inr Seed)
            | Some e \<Rightarrow> (s\<lparr>connectCalls := connectCalls s + 1\<rparr>, Inl e)))
      else (s, Inl (KafkaError NoBrokersAvailableToRefresh)))"

definition broker_connected :: "NetworkClient \<Rightarrow> broker_ref \<Rightarrow> bool" where
  "broker_connected s b =
     (case b of Pooled n \<Rightarrow> connected s n
              | Seed \<Rightarrow> seedBrokers s \<noteq> [] \<and> hd (seedBrokers s))"

definition set_broker_connected :: "NetworkClient \<Rightarrow> broker_ref \<Rightarrow> bool \<Rightarrow> NetworkClient" where
  "set_broker_connected s b c =
     (case b of Pooled n \<Rightarrow> s\<lparr>connections := map_set (connections s) n c\<rparr>
              | Seed \<Rightarrow> s\<lparr>seedBrokers := c # tl (seedBrokers s)\<rparr>)"

text \<open>\<open>broker.send(ApiKeys.METADATA, ...)\<close> and \<open>MetadataResponse.parse\<close>.\<close>

definition metadata_send ::
  "world \<Rightarrow> NetworkClient \<Rightarrow> broker_ref \<Rightarrow> string list option
     \<Rightarrow> NetworkClient \<times> (error + MetadataResponse)" where
  "metadata_send w s b topics' =
     (if \<not> broker_connected s b then (s, Inl (DisconnectedError NotConnectedToBroker))
      else
        (case onMetadata w (metadataSends s) topics' of
           (r, after) \<Rightarrow>
             (set_broker_connected (s\<lparr>metadataSends := metadataSends s + 1\<rparr>) b after, r)))"

text \<open>
  \<open>updateBrokerConnections\<close>: a broker that has a connection in the pool keeps it, as it
  is; a new broker gets a connection if the attempt succeeds; the connections of the
  nodes that are not in the metadata are closed and removed.
\<close>

definition connectBroker :: "world \<Rightarrow> Broker \<Rightarrow> NetworkClient \<Rightarrow> NetworkClient" where
  "connectBroker w broker s =
     (if map_of (connections s) (nodeId broker) \<noteq> None then s
      else
        (case onConnect w (connectCalls s) of
           None \<Rightarrow> s\<lparr>connectCalls := connectCalls s + 1,
                      connections := map_set (connections s) (nodeId broker) True\<rparr>
         | Some e \<Rightarrow> s\<lparr>connectCalls := connectCalls s + 1\<rparr>))"

definition updateBrokerConnections :: "world \<Rightarrow> NetworkClient \<Rightarrow> Broker list \<Rightarrow> NetworkClient" where
  "updateBrokerConnections w s brokerList =
     (let currentNodeIds = map nodeId brokerList;
          s = fold (connectBroker w) brokerList s
      in s\<lparr>connections := filter (\<lambda>(n, c). n \<in> set currentNodeIds) (connections s)\<rparr>)"

text \<open>
  \<open>refreshMetadata(topics)\<close>, without the \<open>specificBroker\<close> only \<open>connect()\<close> passes: the
  error it throws, if any. The \<open>finally\<close> clears the flag.
\<close>

definition refreshBody ::
  "world \<Rightarrow> NetworkClient \<Rightarrow> string list option \<Rightarrow> NetworkClient \<times> error option" where
  "refreshBody w s topics' =
     (case pickBroker w s of
        (s, Inl e) \<Rightarrow> (s, Some e)
      | (s, Inr broker) \<Rightarrow>
          (case metadata_send w s broker topics' of
             (s, Inl e) \<Rightarrow> (s, Some e)
           | (s, Inr response) \<Rightarrow>
               (let s = s\<lparr>clusterMetadata :=
                            fst (updateMetadata (clusterMetadata s) (resp_brokers response)
                                   (resp_topics response) (resp_clusterId response)
                                   (resp_controllerId response))\<rparr>
                in (updateBrokerConnections w s (resp_brokers response), None))))"

definition refreshMetadata ::
  "world \<Rightarrow> NetworkClient \<Rightarrow> string list option \<Rightarrow> NetworkClient \<times> error option" where
  "refreshMetadata w s topics' =
     (let s = s\<lparr>refreshCalls := refreshCalls s + 1\<rparr>
      in if isRefreshingMetadata s then (s, None)
         else
           (case refreshBody w (s\<lparr>isRefreshingMetadata := True\<rparr>) topics' of
              (s, r) \<Rightarrow> (s\<lparr>isRefreshingMetadata := False\<rparr>, r)))"

subsection \<open>sendRequest and sendToPartitionLeader\<close>

definition is_DisconnectedError :: "error \<Rightarrow> bool" where
  "is_DisconnectedError e = (case e of DisconnectedError m \<Rightarrow> True | _ \<Rightarrow> False)"

function sendRequest ::
  "world \<Rightarrow> NetworkClient \<Rightarrow> int \<Rightarrow> int \<Rightarrow> int \<Rightarrow> Buffer \<Rightarrow> int option
     \<Rightarrow> NetworkClient \<times> (error + Buffer)" where
  "sendRequest w s nodeId' apiKey' apiVersion' requestData' timeout' =
     (if \<not> connected s nodeId' then
        (if autoRefreshMetadata s then
           (case refreshMetadata w s None of
              (s, Some e) \<Rightarrow> (s, Inl e)
            | (s, None) \<Rightarrow>
                if \<not> connected s nodeId'
                then (s, Inl (DisconnectedError (NoConnectionToNode nodeId')))
                else sendRequest w s nodeId' apiKey' apiVersion' requestData' timeout')
         else (s, Inl (DisconnectedError (NoConnectionToNode nodeId'))))
      else
        (case connection_send w s nodeId' apiKey' apiVersion' requestData' timeout' of
           (s, Inr response) \<Rightarrow> (s, Inr response)
         | (s, Inl error) \<Rightarrow>
             if is_DisconnectedError error \<and> autoRefreshMetadata s then
               (case refreshMetadata w s None of
                  (s, Some e) \<Rightarrow> (s, Inl e)
                | (s, None) \<Rightarrow>
                    if \<not> connected s nodeId' then (s, Inl error)
                    else connection_send w s nodeId' apiKey' apiVersion' requestData' timeout')
             else (s, Inl error)))"
  by pat_completeness auto

termination
  by (relation "measure (\<lambda>(w, s, nodeId', rest). if connected s nodeId' then 0 else 1)") auto

declare sendRequest.simps [simp del]

definition findLeaderForPartition :: "NetworkClient \<Rightarrow> string \<Rightarrow> int \<Rightarrow> error + int" where
  "findLeaderForPartition s topic partition' = findLeader (clusterMetadata s) topic partition'"

definition sendToLeader ::
  "world \<Rightarrow> NetworkClient \<Rightarrow> string \<Rightarrow> int \<Rightarrow> int \<Rightarrow> int \<Rightarrow> Buffer \<Rightarrow> int option
     \<Rightarrow> NetworkClient \<times> (error + Buffer)" where
  "sendToLeader w s topic partition' apiKey' apiVersion' requestData' timeout' =
     (case findLeaderForPartition s topic partition' of
        Inl e \<Rightarrow> (s, Inl e)
      | Inr leaderId' \<Rightarrow> sendRequest w s leaderId' apiKey' apiVersion' requestData' timeout')"

definition sendToPartitionLeader ::
  "world \<Rightarrow> NetworkClient \<Rightarrow> string \<Rightarrow> int \<Rightarrow> int \<Rightarrow> int \<Rightarrow> Buffer \<Rightarrow> int option
     \<Rightarrow> NetworkClient \<times> (error + Buffer)" where
  "sendToPartitionLeader w s topic partition' apiKey' apiVersion' requestData' timeout' =
     (case sendToLeader w s topic partition' apiKey' apiVersion' requestData' timeout' of
        (s, Inr response) \<Rightarrow> (s, Inr response)
      | (s, Inl error) \<Rightarrow>
          if autoRefreshMetadata s then
            (case refreshMetadata w s (Some [topic]) of
               (s, Some e) \<Rightarrow> (s, Inl e)
             | (s, None) \<Rightarrow>
                 sendToLeader w s topic partition' apiKey' apiVersion' requestData' timeout')
          else (s, Inl error))"

subsection \<open>Counting the refreshes and the requests of a call\<close>

text \<open>
  \<open>within a b s s'\<close>: from \<open>s\<close> to \<open>s'\<close> the client called \<open>refreshMetadata\<close> at most \<open>a\<close>
  times and passed at most \<open>b\<close> requests to connections.
\<close>

definition within :: "nat \<Rightarrow> nat \<Rightarrow> NetworkClient \<Rightarrow> NetworkClient \<Rightarrow> bool" where
  "within a b s s' \<longleftrightarrow>
     refreshCalls s' \<le> refreshCalls s + a \<and> requestSends s' \<le> requestSends s + b
     \<and> refreshCalls s \<le> refreshCalls s' \<and> requestSends s \<le> requestSends s'
     \<and> autoRefreshMetadata s' = autoRefreshMetadata s"

lemma within_refl: "within 0 0 s s"
  by (simp add: within_def)

lemma within_trans: "within a b s s' \<Longrightarrow> within a' b' s' s'' \<Longrightarrow> within (a + a') (b + b') s s''"
  by (auto simp: within_def)

lemma within_mono: "within a b s s' \<Longrightarrow> a \<le> a' \<Longrightarrow> b \<le> b' \<Longrightarrow> within a' b' s s'"
  by (auto simp: within_def)

lemma within_same:
  "refreshCalls s' = refreshCalls s \<Longrightarrow> requestSends s' = requestSends s
     \<Longrightarrow> autoRefreshMetadata s' = autoRefreshMetadata s \<Longrightarrow> within 0 0 s s'"
  by (simp add: within_def)

lemma within_connection_send:
  "within 0 1 s (fst (connection_send w s n k v d t))"
  by (auto simp: connection_send_def within_def split: prod.splits)

lemma within_pickBroker: "within 0 0 s (fst (pickBroker w s))"
  by (auto simp: pickBroker_def within_def split: option.splits)

lemma within_metadata_send: "within 0 0 s (fst (metadata_send w s b ts))"
  by (auto simp: metadata_send_def set_broker_connected_def within_def
      split: prod.splits broker_ref.splits)

lemma within_connectBroker: "within 0 0 s (connectBroker w broker s)"
  by (auto simp: connectBroker_def within_def split: option.splits)

lemma within_fold_connectBroker: "within 0 0 s (fold (connectBroker w) bs s)"
proof (induction bs arbitrary: s)
  case Nil
  then show ?case by (simp add: within_refl)
next
  case (Cons b bs)
  from within_trans [OF within_connectBroker Cons.IH] show ?case by simp
qed

lemma within_updateBrokerConnections: "within 0 0 s (updateBrokerConnections w s bs)"
  using within_fold_connectBroker [of s w bs]
  by (simp add: updateBrokerConnections_def Let_def within_def)

lemma within_refreshBody: "within 0 0 s (fst (refreshBody w s ts))"
proof -
  obtain s1 r1 where p: "pickBroker w s = (s1, r1)" by (cases "pickBroker w s")
  have 1: "within 0 0 s s1" using within_pickBroker [of s w] p by simp
  show ?thesis
  proof (cases r1)
    case (Inl e)
    then show ?thesis using 1 p by (simp add: refreshBody_def)
  next
    case (Inr b)
    obtain s2 r2 where m: "metadata_send w s1 b ts = (s2, r2)" by (cases "metadata_send w s1 b ts")
    have 2: "within 0 0 s1 s2" using within_metadata_send [of s1 w b ts] m by simp
    have 12: "within 0 0 s s2" using within_trans [OF 1 2] by simp
    show ?thesis
    proof (cases r2)
      case (Inl e)
      then show ?thesis using 12 p m Inr by (simp add: refreshBody_def)
    next
      case (Inr response)
      let ?s3 = "s2\<lparr>clusterMetadata :=
                            fst (updateMetadata (clusterMetadata s2) (resp_brokers response)
                                   (resp_topics response) (resp_clusterId response)
                                   (resp_controllerId response))\<rparr>"
      have 3: "within 0 0 s2 ?s3" by (simp add: within_def)
      have 4: "within 0 0 ?s3 (updateBrokerConnections w ?s3 (resp_brokers response))"
        by (rule within_updateBrokerConnections)
      have "within 0 0 s (updateBrokerConnections w ?s3 (resp_brokers response))"
        using within_trans [OF 12 within_trans [OF 3 4]] by simp
      then show ?thesis using p m \<open>r1 = Inr b\<close> Inr by (simp add: refreshBody_def Let_def)
    qed
  qed
qed

lemma within_refreshMetadata: "within 1 0 s (fst (refreshMetadata w s ts))"
proof -
  let ?s0 = "s\<lparr>refreshCalls := refreshCalls s + 1\<rparr>"
  have 0: "within 1 0 s ?s0" by (simp add: within_def)
  show ?thesis
  proof (cases "isRefreshingMetadata s")
    case True
    then show ?thesis using 0 by (simp add: refreshMetadata_def Let_def)
  next
    case False
    let ?s1 = "?s0\<lparr>isRefreshingMetadata := True\<rparr>"
    have 1: "within 0 0 ?s0 ?s1" by (simp add: within_def)
    have 2: "within 0 0 ?s1 (fst (refreshBody w ?s1 ts))" by (rule within_refreshBody)
    have 3: "within 0 0 (fst (refreshBody w ?s1 ts))
               ((fst (refreshBody w ?s1 ts))\<lparr>isRefreshingMetadata := False\<rparr>)"
      by (simp add: within_def)
    have "within 1 0 s ((fst (refreshBody w ?s1 ts))\<lparr>isRefreshingMetadata := False\<rparr>)"
      using within_trans [OF 0 within_trans [OF 1 within_trans [OF 2 3]]] by simp
    then show ?thesis using False by (auto simp: refreshMetadata_def Let_def split: prod.splits)
  qed
qed


lemma autoRefresh_refreshMetadata:
  "autoRefreshMetadata (fst (refreshMetadata w s ts)) = autoRefreshMetadata s"
  using within_refreshMetadata [of s w ts] by (simp add: within_def)

lemma within_trySend:
  assumes "connected s n"
  shows "within 1 2 s (fst (sendRequest w s n k v d t))"
proof -
  obtain s1 r1 where c: "connection_send w s n k v d t = (s1, r1)"
    by (cases "connection_send w s n k v d t")
  have 1: "within 0 1 s s1" using within_connection_send [of s w n k v d t] c by simp
  show ?thesis
  proof (cases "\<exists>error. r1 = Inl error \<and> is_DisconnectedError error \<and> autoRefreshMetadata s1")
    case False
    then have "fst (sendRequest w s n k v d t) = s1"
      using assms c by (subst sendRequest.simps) (auto split: sum.splits)
    then show ?thesis using within_mono [OF 1] by simp
  next
    case True
    then obtain error where e: "r1 = Inl error" "is_DisconnectedError error" "autoRefreshMetadata s1"
      by blast
    obtain s2 r2 where r: "refreshMetadata w s1 None = (s2, r2)" by (cases "refreshMetadata w s1 None")
    have 2: "within 1 0 s1 s2" using within_refreshMetadata [of s1 w None] r by simp
    have 12: "within 1 1 s s2" using within_trans [OF 1 2] by simp
    have "fst (sendRequest w s n k v d t) = s2
          \<or> fst (sendRequest w s n k v d t) = fst (connection_send w s2 n k v d t)"
      using assms c e r by (subst (1 2) sendRequest.simps) (auto split: option.splits)
    then show ?thesis
    proof
      assume "fst (sendRequest w s n k v d t) = s2"
      then show ?thesis using within_mono [OF 12] by simp
    next
      assume "fst (sendRequest w s n k v d t) = fst (connection_send w s2 n k v d t)"
      moreover have "within 1 2 s (fst (connection_send w s2 n k v d t))"
        using within_trans [OF 12 within_connection_send [of s2 w n k v d t]]
        by (simp add: numeral_2_eq_2)
      ultimately show ?thesis by simp
    qed
  qed
qed

lemma within_sendRequest: "within 2 2 s (fst (sendRequest w s n k v d t))"
proof (cases "connected s n")
  case True
  then show ?thesis using within_mono [OF within_trySend] by simp
next
  case False
  show ?thesis
  proof (cases "autoRefreshMetadata s")
    case False
    then have "fst (sendRequest w s n k v d t) = s"
      using \<open>\<not> connected s n\<close> by (subst sendRequest.simps) simp
    then show ?thesis using within_mono [OF within_refl] by simp
  next
    case True
    obtain s1 r1 where r: "refreshMetadata w s None = (s1, r1)" by (cases "refreshMetadata w s None")
    have 1: "within 1 0 s s1" using within_refreshMetadata [of s w None] r by simp
    have "sendRequest w s n k v d t
            = (case r1 of
                 Some e \<Rightarrow> (s1, Inl e)
               | None \<Rightarrow> if \<not> connected s1 n then (s1, Inl (DisconnectedError (NoConnectionToNode n)))
                         else sendRequest w s1 n k v d t)"
      by (subst sendRequest.simps) (simp add: False True r)
    then have "fst (sendRequest w s n k v d t) = s1
          \<or> (connected s1 n \<and> fst (sendRequest w s n k v d t) = fst (sendRequest w s1 n k v d t))"
      by (auto split: option.splits)
    then show ?thesis
    proof
      assume "fst (sendRequest w s n k v d t) = s1"
      then show ?thesis using within_mono [OF 1] by simp
    next
      assume a: "connected s1 n \<and> fst (sendRequest w s n k v d t) = fst (sendRequest w s1 n k v d t)"
      then have "within 1 2 s1 (fst (sendRequest w s1 n k v d t))" by (intro within_trySend) simp
      from within_trans [OF 1 this] a show ?thesis
        by (simp add: within_mono)
    qed
  qed
qed

lemma within_sendToLeader: "within 2 2 s (fst (sendToLeader w s topic p k v d t))"
  using within_sendRequest within_mono [OF within_refl]
  by (auto simp: sendToLeader_def split: sum.splits)

lemma within_sendToPartitionLeader:
  "within 5 4 s (fst (sendToPartitionLeader w s topic p k v d t))"
proof -
  obtain s1 r1 where a: "sendToLeader w s topic p k v d t = (s1, r1)"
    by (cases "sendToLeader w s topic p k v d t")
  have 1: "within 2 2 s s1" using within_sendToLeader [of s w topic p k v d t] a by simp
  obtain s2 r2 where r: "refreshMetadata w s1 (Some [topic]) = (s2, r2)"
    by (cases "refreshMetadata w s1 (Some [topic])")
  have 2: "within 1 0 s1 s2" using within_refreshMetadata [of s1 w "Some [topic]"] r by simp
  have 12: "within 3 2 s s2" using within_trans [OF 1 2] by simp
  have 3: "within 2 2 s2 (fst (sendToLeader w s2 topic p k v d t))" by (rule within_sendToLeader)
  have 123: "within 5 4 s (fst (sendToLeader w s2 topic p k v d t))"
    using within_trans [OF 12 3] by simp
  have "fst (sendToPartitionLeader w s topic p k v d t) = s1
        \<or> fst (sendToPartitionLeader w s topic p k v d t) = s2
        \<or> fst (sendToPartitionLeader w s topic p k v d t) = fst (sendToLeader w s2 topic p k v d t)"
    using a r by (auto simp: sendToPartitionLeader_def split: sum.splits option.splits)
  then show ?thesis
    using within_mono [OF 1, of 5 4] within_mono [OF 12, of 5 4] 123 by auto
qed

lemma refreshCalls_refreshMetadata:
  "refreshCalls (fst (refreshMetadata w s ts)) = refreshCalls s + 1"
proof (cases "isRefreshingMetadata s")
  case True
  then show ?thesis by (simp add: refreshMetadata_def Let_def)
next
  case False
  let ?s1 = "s\<lparr>refreshCalls := refreshCalls s + 1, isRefreshingMetadata := True\<rparr>"
  have "refreshCalls (fst (refreshBody w ?s1 ts)) = refreshCalls ?s1"
    using within_refreshBody [of ?s1 w ts] by (simp add: within_def)
  then show ?thesis using False by (auto simp: refreshMetadata_def Let_def split: prod.splits)
qed

lemma within_no_refresh:
  assumes "\<not> autoRefreshMetadata s"
  shows "within 0 1 s (fst (sendRequest w s n k v d t))"
proof (cases "connected s n")
  case False
  then have "fst (sendRequest w s n k v d t) = s"
    using assms by (subst sendRequest.simps) simp
  then show ?thesis using within_mono [OF within_refl] by simp
next
  case True
  obtain s1 r1 where c: "connection_send w s n k v d t = (s1, r1)"
    by (cases "connection_send w s n k v d t")
  have 1: "within 0 1 s s1" using within_connection_send [of s w n k v d t] c by simp
  then have "\<not> autoRefreshMetadata s1" using assms by (simp add: within_def)
  then have "fst (sendRequest w s n k v d t) = s1"
    using True c by (subst sendRequest.simps) (auto split: sum.splits)
  then show ?thesis using 1 by simp
qed

lemma mid_flight:
  assumes "connected s n" "autoRefreshMetadata s"
    and "fst (onRequest w (requestSends s) (n, k, v, d, t)) = Inl (DisconnectedError m)"
  shows "refreshCalls (fst (sendRequest w s n k v d t)) = refreshCalls s + 1"
proof -
  obtain after where o: "onRequest w (requestSends s) (n, k, v, d, t) = (Inl (DisconnectedError m), after)"
    using assms(3) by (cases "onRequest w (requestSends s) (n, k, v, d, t)") simp
  define s1 where "s1 = s\<lparr>requestSends := requestSends s + 1,
                connections := map_set (connections s) n after\<rparr>"
  have c: "connection_send w s n k v d t = (s1, Inl (DisconnectedError m))"
    using assms(1) o by (simp add: connection_send_def s1_def)
  have 1: "within 0 1 s s1" using within_connection_send [of s w n k v d t] c by simp
  then have a1: "autoRefreshMetadata s1" "refreshCalls s1 = refreshCalls s"
    using assms(2) by (simp_all add: within_def)
  obtain s2 r2 where r: "refreshMetadata w s1 None = (s2, r2)" by (cases "refreshMetadata w s1 None")
  have 2: "refreshCalls s2 = refreshCalls s + 1"
    using refreshCalls_refreshMetadata [of w s1 None] r a1 by simp
  have 3: "refreshCalls (fst (connection_send w s2 n k v d t)) = refreshCalls s2"
    using within_connection_send [of s2 w n k v d t] by (simp add: within_def)
  have "fst (sendRequest w s n k v d t) = s2
          \<or> fst (sendRequest w s n k v d t) = fst (connection_send w s2 n k v d t)"
    using assms(1) c a1 r
    by (subst (1 2) sendRequest.simps) (auto simp: is_DisconnectedError_def split: option.splits)
  then show ?thesis using 2 3 by auto
qed

definition ex_response :: MetadataResponse where
  "ex_response =
     \<lparr>resp_brokers = [ex_broker 2, ex_broker 1], resp_clusterId = None, resp_controllerId = 2,
      resp_topics = [ex_topic 0 ''orders'' [ex_partition 0 1 [1] [1]]]\<rparr>"

text \<open>
  A world where the metadata requests succeed, every attempt to connect succeeds, and the
  connection of a request is closed while the request is in flight.
\<close>

definition ex_world :: world where
  "ex_world =
     \<lparr>onMetadata = (\<lambda>i ts. (Inr ex_response, True)),
      onRequest = (\<lambda>i r. (Inl (DisconnectedError ConnectionClosed), False)),
      onConnect = (\<lambda>i. None)\<rparr>"

definition ex_client :: "(int \<times> bool) list \<Rightarrow> bool list \<Rightarrow> bool \<Rightarrow> NetworkClient" where
  "ex_client pool seeds auto =
     \<lparr>autoRefreshMetadata = auto,
      clusterMetadata = ex_cache (ex_topic 0 ''orders'' [ex_partition 0 1 [1] [1]]),
      connections = pool, seedBrokers = seeds, isRefreshingMetadata = False,
      refreshCalls = 0, requestSends = 0, metadataSends = 0, connectCalls = 0\<rparr>"

text \<open>
  Claim C5, as the code has it. \<open>sendRequest\<close> and \<open>sendToPartitionLeader\<close> return,
  whatever the network does, and no call retries without bound: one call of \<open>sendRequest\<close>
  calls \<open>refreshMetadata\<close> at most twice (once when it finds no connection, once when the
  send fails with a \<open>DisconnectedError\<close>) and passes at most two requests to a connection;
  started on a connected node, a send that fails with a \<open>DisconnectedError\<close> is followed
  by exactly one refresh, and at most one more send. One call of
  \<open>sendToPartitionLeader\<close> runs \<open>sendRequest\<close> at most twice, with a refresh of its own
  between the two for any error of the first: at most five calls of \<open>refreshMetadata\<close> and
  four requests. Without \<open>autoRefreshMetadata\<close> there is no refresh and at most one
  request.
\<close>

theorem bounded_retries:
  "refreshCalls (fst (sendRequest w s n k v d t)) \<le> refreshCalls s + 2
   \<and> requestSends (fst (sendRequest w s n k v d t)) \<le> requestSends s + 2
   \<and> (connected s n \<longrightarrow> refreshCalls (fst (sendRequest w s n k v d t)) \<le> refreshCalls s + 1)
   \<and> (connected s n \<and> autoRefreshMetadata s
        \<and> fst (onRequest w (requestSends s) (n, k, v, d, t)) = Inl (DisconnectedError m) \<longrightarrow>
        refreshCalls (fst (sendRequest w s n k v d t)) = refreshCalls s + 1)
   \<and> refreshCalls (fst (sendToPartitionLeader w s topic p k v d t)) \<le> refreshCalls s + 5
   \<and> requestSends (fst (sendToPartitionLeader w s topic p k v d t)) \<le> requestSends s + 4
   \<and> (\<not> autoRefreshMetadata s \<longrightarrow>
        refreshCalls (fst (sendRequest w s n k v d t)) = refreshCalls s
        \<and> requestSends (fst (sendRequest w s n k v d t)) \<le> requestSends s + 1
        \<and> refreshCalls (fst (sendToPartitionLeader w s topic p k v d t)) = refreshCalls s
        \<and> requestSends (fst (sendToPartitionLeader w s topic p k v d t)) \<le> requestSends s + 1)"
proof (intro conjI impI)
  show "refreshCalls (fst (sendRequest w s n k v d t)) \<le> refreshCalls s + 2"
    "requestSends (fst (sendRequest w s n k v d t)) \<le> requestSends s + 2"
    using within_sendRequest [of s w n k v d t] by (simp_all add: within_def)
  show "refreshCalls (fst (sendToPartitionLeader w s topic p k v d t)) \<le> refreshCalls s + 5"
    "requestSends (fst (sendToPartitionLeader w s topic p k v d t)) \<le> requestSends s + 4"
    using within_sendToPartitionLeader [of s w topic p k v d t] by (simp_all add: within_def)
next
  assume "connected s n"
  then show "refreshCalls (fst (sendRequest w s n k v d t)) \<le> refreshCalls s + 1"
    using within_trySend [of s n w k v d t] by (simp add: within_def)
next
  assume "connected s n \<and> autoRefreshMetadata s
        \<and> fst (onRequest w (requestSends s) (n, k, v, d, t)) = Inl (DisconnectedError m)"
  then show "refreshCalls (fst (sendRequest w s n k v d t)) = refreshCalls s + 1"
    using mid_flight by blast
next
  assume a: "\<not> autoRefreshMetadata s"
  from within_no_refresh [OF a, of w n k v d t]
  show "refreshCalls (fst (sendRequest w s n k v d t)) = refreshCalls s"
    "requestSends (fst (sendRequest w s n k v d t)) \<le> requestSends s + 1"
    by (simp_all add: within_def)
  obtain s1 r1 where l: "sendToLeader w s topic p k v d t = (s1, r1)"
    by (cases "sendToLeader w s topic p k v d t")
  have 1: "within 0 1 s s1"
  proof (cases "findLeaderForPartition s topic p")
    case (Inl e)
    then have "s1 = s" using l by (simp add: sendToLeader_def)
    then show ?thesis using within_mono [OF within_refl, of 0 1 s] by simp
  next
    case (Inr leader)
    then have "s1 = fst (sendRequest w s leader k v d t)" using l by (simp add: sendToLeader_def)
    then show ?thesis using within_no_refresh [OF a, of w leader k v d t] by simp
  qed
  then have "\<not> autoRefreshMetadata s1" using a by (simp add: within_def)
  then have "fst (sendToPartitionLeader w s topic p k v d t) = s1"
    using l by (auto simp: sendToPartitionLeader_def split: sum.splits)
  with 1 show "refreshCalls (fst (sendToPartitionLeader w s topic p k v d t)) = refreshCalls s"
    "requestSends (fst (sendToPartitionLeader w s topic p k v d t)) \<le> requestSends s + 1"
    by (simp_all add: within_def)
qed


theorem bounded_retries_witness:
  "refreshCalls (fst (sendRequest ex_world (ex_client [(2, True), (1, True)] [] True) 1 0 0 [] None))
     \<le> refreshCalls (ex_client [(2, True), (1, True)] [] True) + 1
   \<and> refreshCalls (fst (sendRequest ex_world (ex_client [(2, True), (1, True)] [] True) 1 0 0 [] None))
     = refreshCalls (ex_client [(2, True), (1, True)] [] True) + 1
   \<and> (refreshCalls (fst (sendRequest ex_world (ex_client [(2, True), (1, True)] [] False) 1 0 0 [] None))
        = refreshCalls (ex_client [(2, True), (1, True)] [] False)
      \<and> requestSends (fst (sendRequest ex_world (ex_client [(2, True), (1, True)] [] False) 1 0 0 [] None))
        \<le> requestSends (ex_client [(2, True), (1, True)] [] False) + 1
      \<and> refreshCalls (fst (sendToPartitionLeader ex_world (ex_client [(2, True), (1, True)] [] False)
           ''orders'' 0 0 0 [] None))
        = refreshCalls (ex_client [(2, True), (1, True)] [] False)
      \<and> requestSends (fst (sendToPartitionLeader ex_world (ex_client [(2, True), (1, True)] [] False)
           ''orders'' 0 0 0 [] None))
        \<le> requestSends (ex_client [(2, True), (1, True)] [] False) + 1)"
proof -
  let ?s = "ex_client [(2, True), (1, True)] [] True"
  let ?n = "ex_client [(2, True), (1, True)] [] False"
  have h1: "connected ?s 1" by code_simp
  have h2: "connected ?s 1 \<and> autoRefreshMetadata ?s
        \<and> fst (onRequest ex_world (requestSends ?s) (1, 0, 0, [], None))
            = Inl (DisconnectedError ConnectionClosed)"
    by code_simp
  have h3: "\<not> autoRefreshMetadata ?n" by code_simp
  note t1 = bounded_retries [THEN conjunct2, THEN conjunct2, THEN conjunct1, THEN mp, OF h1]
  note t2 = bounded_retries [THEN conjunct2, THEN conjunct2, THEN conjunct2, THEN conjunct1,
      THEN mp, OF h2]
  note t3 = bounded_retries [THEN conjunct2, THEN conjunct2, THEN conjunct2, THEN conjunct2,
      THEN conjunct2, THEN conjunct2, THEN mp, OF h3]
  show ?thesis
    by (rule conjI [OF t1 conjI [OF t2 t3]])
qed

theorem bounded_retries_counterexample:
  "snd (sendToPartitionLeader ex_world (ex_client [(2, True), (1, True)] [] True) ''orders'' 0 0 0 [] None)
     = Inl (DisconnectedError (NoConnectionToNode 1))
   \<and> refreshCalls (fst (sendToPartitionLeader ex_world (ex_client [(2, True), (1, True)] [] True)
        ''orders'' 0 0 0 [] None)) = 3
   \<and> requestSends (fst (sendToPartitionLeader ex_world (ex_client [(2, True), (1, True)] [] True)
        ''orders'' 0 0 0 [] None)) = 1
   \<and> snd (sendRequest ex_world (ex_client [] [True] True) 1 0 0 [] None)
     = Inl (DisconnectedError ConnectionClosed)
   \<and> refreshCalls (fst (sendRequest ex_world (ex_client [] [True] True) 1 0 0 [] None)) = 2"
  by code_simp

end
